theory Spec2Isabelle
  imports Main "HOL-Library.Word"
begin

unbundle bit_operations_syntax

section \<open>SmartPort command decoder (command\_decoder.c)\<close>

text \<open>
  A shallow embedding of \<^verbatim>\<open>phase2_command_decoder/main/command_decoder.c\<close>.
  \<^verbatim>\<open>uint8_t\<close> is \<open>8 word\<close>; \<^verbatim>\<open>int\<close> and \<^verbatim>\<open>int64_t\<close> are \<open>int\<close>: every
  index and length of the program stays between \<open>-1\<close> and \<open>136\<close>, the counters of
  \<^verbatim>\<open>check_wrdata_activity\<close> count the polls of one window of 2 ms, and the timer
  differences are differences of two 64-bit microsecond readings, so no operation
  of the modelled functions wraps.
\<close>

type_synonym u8 = "8 word"

subsection \<open>Constants\<close>

definition BIT_TIME_US :: int where
  "BIT_TIME_US = 4"

definition HALF_BIT_US :: int where
  "HALF_BIT_US = 2"

definition CAPTURE_TIMEOUT_US :: int where
  "CAPTURE_TIMEOUT_US = 10000"

definition CAPTURE_SIZE :: int where
  "CAPTURE_SIZE = 128"

definition SYNC_PATTERN :: "u8 list" where
  "SYNC_PATTERN = [0xFF, 0x3F, 0xCF, 0xF3, 0xFC, 0xFF]"

text \<open>\<^verbatim>\<open>sizeof(SYNC_PATTERN)\<close>: six elements of one byte each.\<close>

definition sizeof_SYNC_PATTERN :: int where
  "sizeof_SYNC_PATTERN = int (length SYNC_PATTERN)"

subsection \<open>Command names\<close>

text \<open>The \<^verbatim>\<open>switch\<close> of \<^verbatim>\<open>get_command_name\<close>, case by case, \<^verbatim>\<open>default\<close> last.\<close>

definition get_command_name :: "u8 \<Rightarrow> string" where
  "get_command_name cmd =
     (if cmd = 0x00 then ''STATUS''
      else if cmd = 0x01 then ''READBLOCK''
      else if cmd = 0x02 then ''WRITEBLOCK''
      else if cmd = 0x03 then ''FORMAT''
      else if cmd = 0x04 then ''CONTROL''
      else if cmd = 0x05 then ''INIT''
      else if cmd = 0x06 then ''OPEN''
      else if cmd = 0x07 then ''CLOSE''
      else if cmd = 0x08 then ''READ''
      else if cmd = 0x09 then ''WRITE''
      else ''UNKNOWN'')"

text \<open>The names of the codes \<open>0x00\<close> to \<open>0x09\<close>, in the order of the switch.\<close>

definition command_table :: "string list" where
  "command_table =
     [''STATUS'', ''READBLOCK'', ''WRITEBLOCK'', ''FORMAT'', ''CONTROL'',
      ''INIT'', ''OPEN'', ''CLOSE'', ''READ'', ''WRITE'']"

subsection \<open>Reading the capture buffer\<close>

text \<open>
  The analysis functions read the two globals \<^verbatim>\<open>capture_buffer\<close> (the array, a list
  \<open>buf\<close>) and \<^verbatim>\<open>capture_len\<close> (\<open>len\<close>) and change neither, so the model passes both
  as arguments. Every function returns, beside its value, the list of the indices
  \<open>k\<close> of the reads \<^verbatim>\<open>capture_buffer[k]\<close> it made, in order. An index outside the
  array is undefined behaviour in C; lemma \<open>analyze_capture_reads\<close> shows that every
  index read lies in \<open>[0, capture_len)\<close>, so \<open>buf ! nat k\<close> is never taken out of
  range when \<open>capture_len\<close> is at most the length of the array.
\<close>

type_synonym 'a reading = "'a \<times> int list"

definition capture_buffer_at :: "u8 list \<Rightarrow> int \<Rightarrow> u8 reading" where
  "capture_buffer_at buf k = (buf ! nat k, [k])"

subsection \<open>Sync pattern search\<close>

text \<open>
  The inner loop of \<^verbatim>\<open>find_sync_pattern\<close>, from index \<open>j\<close>: the value is \<^verbatim>\<open>match\<close>
  when the loop ends (by \<^verbatim>\<open>break\<close> at the first difference, or at \<open>j = 6\<close>).
\<close>

function match_loop :: "u8 list \<Rightarrow> int \<Rightarrow> int \<Rightarrow> bool reading" where
  "match_loop buf i j =
     (if j < sizeof_SYNC_PATTERN then
        (case capture_buffer_at buf (i + j) of (b, r) \<Rightarrow>
           if b \<noteq> SYNC_PATTERN ! nat j then (False, r)
           else (case match_loop buf i (j + 1) of (m, r') \<Rightarrow> (m, r @ r')))
      else (True, []))"
  by pat_completeness auto
termination
  by (relation "measure (\<lambda>(buf, i, j). nat (sizeof_SYNC_PATTERN - j))") auto

declare match_loop.simps [simp del]

text \<open>
  The outer loop from index \<open>i\<close>. The source compares \<^verbatim>\<open>i <= capture_len - sizeof(...)\<close>
  after converting both sides to \<^verbatim>\<open>size_t\<close>; the loop is entered only with
  \<open>6 \<le> capture_len\<close> and \<open>0 \<le> i\<close>, where the conversion changes no value.
\<close>

function sync_loop :: "u8 list \<Rightarrow> int \<Rightarrow> int \<Rightarrow> int reading" where
  "sync_loop buf len i =
     (if i \<le> len - sizeof_SYNC_PATTERN then
        (case match_loop buf i 0 of (m, r) \<Rightarrow>
           if m then (i, r)
           else (case sync_loop buf len (i + 1) of (k, r') \<Rightarrow> (k, r @ r')))
      else (-1, []))"
  by pat_completeness auto
termination
  by (relation "measure (\<lambda>(buf, len, i). nat (len - sizeof_SYNC_PATTERN + 1 - i))") auto

declare sync_loop.simps [simp del]

definition find_sync_pattern :: "u8 list \<Rightarrow> int \<Rightarrow> int reading" where
  "find_sync_pattern buf len =
     (if len < sizeof_SYNC_PATTERN then (-1, []) else sync_loop buf len 0)"

text \<open>
  What the specification asks of the search, in its own words: an exact match of the
  six bytes of the marker in the captured bytes \<open>cap\<close>, starting at offset \<open>k\<close>.
  This definition is not taken from the source; the search is compared with it.
\<close>

definition marker_at :: "u8 list \<Rightarrow> nat \<Rightarrow> bool" where
  "marker_at cap k = (take 6 (drop k cap) = SYNC_PATTERN)"

subsection \<open>Console output\<close>

text \<open>
  The program reports through \<^verbatim>\<open>printf\<close> only. Each format string of the modelled
  functions is one constructor, with the values printed as its arguments:
  \<^item> \<open>CAPTURE n bytes dots\<close>: \<^verbatim>\<open>[CAPTURE] %d bytes: \<close>, the bytes printed in hex, and
    whether \<^verbatim>\<open>...\<close> follows;
  \<^item> \<open>SYNC_FOUND k\<close>: \<^verbatim>\<open>[SYNC] Found at offset %d\<close>;
  \<^item> \<open>PKT_START k\<close>: \<^verbatim>\<open>[PKT] Packet start (C3) at offset %d\<close>;
  \<^item> \<open>PKT_HEADER dest src type\<close>: \<^verbatim>\<open>[PKT] Dest=%02X Src=%02X Type=%02X\<close>;
  \<^item> \<open>CMD cmd name\<close>: \<^verbatim>\<open>[CMD] Command: 0x%02X (%s)\<close>;
  \<^item> \<open>WARN_ALL_ZEROS\<close>, \<open>WARN_ALL_ONES\<close>, \<open>INFO_NO_SYNC\<close>: the three messages of the
    branch without sync;
  \<^item> \<open>DEBUG_WAITING\<close>, \<open>DEBUG_TIMEOUT\<close>, \<open>DEBUG_WRITE_MODE\<close>, \<open>DEBUG_NO_TRANSITIONS\<close>: the
    fixed \<^verbatim>\<open>[DEBUG]\<close> messages of \<^verbatim>\<open>capture_packet\<close>;
  \<^item> \<open>DEBUG_LEVELS wrdata enbl1 enbl2 wrreq\<close>: \<^verbatim>\<open>[DEBUG] wrdata = %d, _enbl1 = %d, ...\<close>;
  \<^item> \<open>DEBUG_ACTIVITY samples high transitions\<close>: the line of
    \<^verbatim>\<open>check_wrdata_activity\<close> (its percentage is computed from the first two numbers
    in floating point and is left out).
\<close>

datatype line =
    CAPTURE int "u8 list" bool
  | SYNC_FOUND int
  | PKT_START int
  | PKT_HEADER u8 u8 u8
  | CMD u8 string
  | WARN_ALL_ZEROS
  | WARN_ALL_ONES
  | INFO_NO_SYNC
  | DEBUG_WAITING
  | DEBUG_TIMEOUT
  | DEBUG_WRITE_MODE
  | DEBUG_NO_TRANSITIONS
  | DEBUG_LEVELS int int int int
  | DEBUG_ACTIVITY int int int

subsection \<open>Analysis of a capture\<close>

text \<open>
  The head of \<^verbatim>\<open>analyze_capture\<close>: the length and the first \<open>min len 32\<close> bytes.
  The \<^verbatim>\<open>for\<close> loop has no exit but its bound, so it is a \<open>map\<close> over the indices
  \<open>0, ..., print_len - 1\<close>.
\<close>

definition hex_dump :: "u8 list \<Rightarrow> int \<Rightarrow> line reading" where
  "hex_dump buf len =
     (let print_len = (if len > 32 then 32 else len);
          idx = [0..print_len - 1]
      in (CAPTURE len (map (\<lambda>i. buf ! nat i) idx) (len > 32), idx))"

text \<open>
  The branch \<^verbatim>\<open>sync_offset >= 0\<close> of \<^verbatim>\<open>analyze_capture\<close>, the packet decoder. The
  conjunction \<^verbatim>\<open>pkt_start < capture_len && capture_buffer[pkt_start] == 0xC3\<close> reads
  the buffer only when its left side holds. Of the header, the source reads the
  bytes at \<open>+1\<close>, \<open>+2\<close>, \<open>+3\<close> and \<open>+8\<close>, all under the one test
  \<^verbatim>\<open>pkt_start + 8 < capture_len\<close>.
\<close>

definition decode_packet :: "u8 list \<Rightarrow> int \<Rightarrow> int \<Rightarrow> (line list) reading" where
  "decode_packet buf len sync_offset =
     (let pkt_start = sync_offset + sizeof_SYNC_PATTERN in
      if pkt_start < len then
        (case capture_buffer_at buf pkt_start of (start, r0) \<Rightarrow>
           if start = 0xC3 then
             (if pkt_start + 8 < len then
                (case capture_buffer_at buf (pkt_start + 1) of (dest, r1) \<Rightarrow>
                 case capture_buffer_at buf (pkt_start + 2) of (src, r2) \<Rightarrow>
                 case capture_buffer_at buf (pkt_start + 3) of (type, r3) \<Rightarrow>
                 case capture_buffer_at buf (pkt_start + 8) of (cmd, r4) \<Rightarrow>
                   ([SYNC_FOUND sync_offset, PKT_START pkt_start, PKT_HEADER dest src type] @
                    (if type = 0x80 \<or> type = 0x85 then [CMD cmd (get_command_name cmd)] else []),
                    r0 @ r1 @ r2 @ r3 @ r4))
              else ([SYNC_FOUND sync_offset, PKT_START pkt_start], r0))
           else ([SYNC_FOUND sync_offset], r0))
      else ([SYNC_FOUND sync_offset], []))"

text \<open>
  The branch without sync. One round of its loop reads \<^verbatim>\<open>capture_buffer[i]\<close> twice
  and can only clear the two flags; the loop runs over \<open>0, ..., capture_len - 1\<close>.
\<close>

definition classify_step :: "u8 list \<Rightarrow> int \<Rightarrow> bool \<times> bool \<Rightarrow> bool \<times> bool" where
  "classify_step buf i flags =
     (case flags of (all_zero, all_one) \<Rightarrow>
        (if buf ! nat i \<noteq> 0x00 then False else all_zero,
         if buf ! nat i \<noteq> 0xFF then False else all_one))"

definition classify_no_sync :: "u8 list \<Rightarrow> int \<Rightarrow> (line list) reading" where
  "classify_no_sync buf len =
     (let idx = [0..len - 1] in
      case fold (classify_step buf) idx (True, True) of (all_zero, all_one) \<Rightarrow>
        ([if all_zero then WARN_ALL_ZEROS
          else if all_one then WARN_ALL_ONES
          else INFO_NO_SYNC],
         concat (map (\<lambda>i. [i, i]) idx)))"

definition analyze_capture :: "u8 list \<Rightarrow> int \<Rightarrow> (line list) reading" where
  "analyze_capture buf len =
     (case hex_dump buf len of (head, r0) \<Rightarrow>
      case find_sync_pattern buf len of (sync_offset, r1) \<Rightarrow>
      case (if sync_offset \<ge> 0 then decode_packet buf len sync_offset
            else classify_no_sync buf len) of (rest, r2) \<Rightarrow>
        (head # rest, r0 @ r1 @ r2))"

section \<open>The capture session\<close>

subsection \<open>Hardware\<close>

text \<open>
  The functions of the capture side call three services of the platform:
  \<^verbatim>\<open>gpio_get_level\<close>, \<^verbatim>\<open>esp_timer_get_time\<close> and \<^verbatim>\<open>esp_rom_delay_us\<close>. Their
  code is not part of the repository, and what they return is decided by the bus
  and the clock. The model takes it as a parameter \<open>hw\<close>: the level of each pin and
  the reading of the timer at the \<open>n\<close>-th call of a service since the start
  (\<open>n = 0, 1, ...\<close>). Every run of the program on real hardware is the run of the model
  on one such \<open>hw\<close>. \<^verbatim>\<open>gpio_get_level\<close> returns an \<^verbatim>\<open>int\<close>; the source tests it with
  \<^verbatim>\<open>!\<close>, \<^verbatim>\<open>== 0\<close> and by conversion to \<^verbatim>\<open>bool\<close>, and the model keeps the \<^verbatim>\<open>int\<close>.
\<close>

datatype pin =
    PIN_PHI0 | PIN_PHI1 | PIN_PHI2 | PIN_PHI3
  | PIN_WRDATA | PIN_RDDATA | PIN_ACK
  | PIN_ENBL1 | PIN_WREQ | PIN_ENBL2 | PIN_DBG_Q7

datatype service =
    Gpio_get_level pin
  | Esp_timer_get_time
  | Esp_rom_delay_us int

record hw =
  level_at :: "nat \<Rightarrow> pin \<Rightarrow> int"
  time_at :: "nat \<Rightarrow> int"

text \<open>
  The state of the program: the two globals, and what the run has done so far:
  \<^item> \<open>tick\<close>: the number of service calls made;
  \<^item> \<open>calls\<close>: these calls, the latest first;
  \<^item> \<open>writes\<close>: the indices \<open>k\<close> of the stores \<^verbatim>\<open>capture_buffer[k] = ...\<close>, the latest
    first;
  \<^item> \<open>console\<close>: the lines printed, the latest first.
\<close>

record state =
  capture_buffer :: "u8 list"
  capture_len :: int
  tick :: nat
  calls :: "service list"
  writes :: "int list"
  console :: "line list"

definition call :: "service \<Rightarrow> state \<Rightarrow> state" where
  "call c s = s\<lparr>tick := tick s + 1, calls := c # calls s\<rparr>"

definition gpio_get_level :: "hw \<Rightarrow> pin \<Rightarrow> state \<Rightarrow> int \<times> state" where
  "gpio_get_level h p s = (level_at h (tick s) p, call (Gpio_get_level p) s)"

definition esp_timer_get_time :: "hw \<Rightarrow> state \<Rightarrow> int \<times> state" where
  "esp_timer_get_time h s = (time_at h (tick s), call Esp_timer_get_time s)"

definition esp_rom_delay_us :: "int \<Rightarrow> state \<Rightarrow> state" where
  "esp_rom_delay_us us s = call (Esp_rom_delay_us us) s"

definition printf :: "line \<Rightarrow> state \<Rightarrow> state" where
  "printf l s = s\<lparr>console := l # console s\<rparr>"

subsection \<open>Signal sampler and byte assembler\<close>

text \<open>\<^verbatim>\<open>read_wrdata\<close> returns \<^verbatim>\<open>bool\<close>: true for every level other than 0.\<close>

definition read_wrdata :: "hw \<Rightarrow> state \<Rightarrow> bool \<times> state" where
  "read_wrdata h s = (case gpio_get_level h PIN_WRDATA s of (v, s') \<Rightarrow> (v \<noteq> 0, s'))"

text \<open>
  \<^verbatim>\<open>!gpio_get_level(PIN_ENBL1) || !gpio_get_level(PIN_ENBL2)\<close>: the second pin is read
  only when the first is not low.
\<close>

definition drive_enabled :: "hw \<Rightarrow> state \<Rightarrow> bool \<times> state" where
  "drive_enabled h s =
     (case gpio_get_level h PIN_ENBL1 s of (e1, s1) \<Rightarrow>
        if e1 = 0 then (True, s1)
        else (case gpio_get_level h PIN_ENBL2 s1 of (e2, s2) \<Rightarrow> (e2 = 0, s2)))"

text \<open>
  The loop of \<^verbatim>\<open>read_byte_raw\<close> with \<open>n\<close> rounds left (\<open>n = 8 - i\<close>; the body does not
  use \<open>i\<close>). \<^verbatim>\<open>byte << 1\<close> is computed in \<^verbatim>\<open>int\<close> and cut to 8 bits by the store to
  \<^verbatim>\<open>byte\<close>, which is the shift of an 8-bit word.
\<close>

fun read_byte_loop :: "hw \<Rightarrow> nat \<Rightarrow> u8 \<Rightarrow> state \<Rightarrow> u8 \<times> state" where
  "read_byte_loop h 0 byte s = (byte, s)"
| "read_byte_loop h (Suc n) byte s =
     (case read_wrdata h (esp_rom_delay_us HALF_BIT_US s) of (b, s') \<Rightarrow>
        read_byte_loop h n (push_bit 1 byte OR (if b then 1 else 0))
          (esp_rom_delay_us HALF_BIT_US s'))"

definition read_byte_raw :: "hw \<Rightarrow> state \<Rightarrow> u8 \<times> state" where
  "read_byte_raw h s = read_byte_loop h 8 0 s"

subsection \<open>Waiting for the write request\<close>

text \<open>
  The loops of \<^verbatim>\<open>wait_for_write_mode\<close> and \<^verbatim>\<open>check_wrdata_activity\<close> end when the
  timer has advanced far enough. On a timer that stands still they do not end,
  and the model returns \<open>None\<close>.
\<close>

partial_function (option) wait_loop :: "hw \<Rightarrow> int \<Rightarrow> int \<Rightarrow> state \<Rightarrow> (bool \<times> state) option" where
  "wait_loop h start timeout_us s =
     (case esp_timer_get_time h s of (now, s1) \<Rightarrow>
        if now - start < timeout_us then
          (case gpio_get_level h PIN_WREQ s1 of (v, s2) \<Rightarrow>
             if v = 0 then Some (True, s2)
             else wait_loop h start timeout_us s2)
        else Some (False, s1))"

declare wait_loop.simps [code]

definition wait_for_write_mode :: "hw \<Rightarrow> int \<Rightarrow> state \<Rightarrow> (bool \<times> state) option" where
  "wait_for_write_mode h timeout_us s =
     (case esp_timer_get_time h s of (start, s0) \<Rightarrow> wait_loop h start timeout_us s0)"

subsection \<open>Activity check\<close>

text \<open>The locals of \<^verbatim>\<open>check_wrdata_activity\<close> that its loop changes.\<close>

record activity =
  transitions :: int
  last_state :: bool
  high_count :: int
  samples :: int

partial_function (option) activity_loop ::
    "hw \<Rightarrow> int \<Rightarrow> int \<Rightarrow> activity \<Rightarrow> state \<Rightarrow> (activity \<times> state) option" where
  "activity_loop h start_time timeout_us a s =
     (case esp_timer_get_time h s of (now, s1) \<Rightarrow>
        if now - start_time < timeout_us then
          (case read_wrdata h s1 of (st, s2) \<Rightarrow>
             activity_loop h start_time timeout_us
               \<lparr>transitions = (if st \<noteq> last_state a then transitions a + 1 else transitions a),
                last_state = (if st \<noteq> last_state a then st else last_state a),
                high_count = (if st then high_count a + 1 else high_count a),
                samples = samples a + 1\<rparr> s2)
        else Some (a, s1))"

declare activity_loop.simps [code]

definition check_wrdata_activity :: "hw \<Rightarrow> int \<Rightarrow> state \<Rightarrow> (int \<times> state) option" where
  "check_wrdata_activity h timeout_us s =
     (case esp_timer_get_time h s of (start_time, s0) \<Rightarrow>
      case read_wrdata h s0 of (first, s1) \<Rightarrow>
      case activity_loop h start_time timeout_us
             \<lparr>transitions = 0, last_state = first,
              high_count = (if first then 1 else 0), samples = 1\<rparr> s1 of
        None \<Rightarrow> None
      | Some (a, s2) \<Rightarrow>
          Some (transitions a,
                printf (DEBUG_ACTIVITY (samples a) (high_count a) (transitions a)) s2))"

subsection \<open>The capture loop\<close>

text \<open>
  \<^verbatim>\<open>capture_packet\<close> returns nothing. The model returns the state and the way the
  function was left:
  \<^item> \<open>NO_WRITE_MODE\<close>: the \<^verbatim>\<open>return\<close> after \<^verbatim>\<open>wait_for_write_mode\<close> failed;
  \<^item> \<open>BUFFER_FULL\<close>: the \<^verbatim>\<open>while\<close> condition \<^verbatim>\<open>capture_len < CAPTURE_SIZE\<close> failed;
  \<^item> \<open>CAPTURE_TIMEOUT\<close>: the \<^verbatim>\<open>break\<close> under \<^verbatim>\<open>now - start_time > CAPTURE_TIMEOUT_US\<close>;
  \<^item> \<open>DRIVE_DISABLED\<close>: the \<^verbatim>\<open>break\<close> under \<^verbatim>\<open>!drive_enabled()\<close>.
\<close>

datatype exit = NO_WRITE_MODE | BUFFER_FULL | CAPTURE_TIMEOUT | DRIVE_DISABLED

text \<open>
  The four levels printed by the two \<^verbatim>\<open>[DEBUG] wrdata = ...\<close> lines are read in the
  order of the argument list (C leaves the order open; only the ticks of the four
  reads depend on it).
\<close>

definition print_levels :: "hw \<Rightarrow> state \<Rightarrow> state" where
  "print_levels h s =
     (case gpio_get_level h PIN_WRDATA s of (w, s1) \<Rightarrow>
      case gpio_get_level h PIN_ENBL1 s1 of (e1, s2) \<Rightarrow>
      case gpio_get_level h PIN_ENBL2 s2 of (e2, s3) \<Rightarrow>
      case gpio_get_level h PIN_WREQ s3 of (q, s4) \<Rightarrow>
        printf (DEBUG_LEVELS w e1 e2 q) s4)"

text \<open>
  \<^verbatim>\<open>capture_buffer[capture_len++] = byte\<close>. The index of the store is recorded in
  \<open>writes\<close>. A store outside the array is undefined behaviour in C (the list update
  of HOL would leave the list as it is); the property C8 below shows that the
  stores of a session go to the indices \<open>0, 1, ...\<close> below 128.
\<close>

definition store_byte :: "u8 \<Rightarrow> state \<Rightarrow> state" where
  "store_byte byte s =
     s\<lparr>capture_buffer := (capture_buffer s)[nat (capture_len s) := byte],
       writes := capture_len s # writes s,
       capture_len := capture_len s + 1\<rparr>"

function capture_loop :: "hw \<Rightarrow> int \<Rightarrow> state \<Rightarrow> exit \<times> state" where
  "capture_loop h start_time s =
     (if capture_len s < CAPTURE_SIZE then
        (case esp_timer_get_time h s of (now, s1) \<Rightarrow>
           if now - start_time > CAPTURE_TIMEOUT_US then (CAPTURE_TIMEOUT, s1)
           else
             (case read_byte_raw h s1 of (byte, s2) \<Rightarrow>
              case drive_enabled h (store_byte byte s2) of (enabled, s3) \<Rightarrow>
                if \<not> enabled then (DRIVE_DISABLED, s3)
                else capture_loop h start_time s3))
      else (BUFFER_FULL, s))"
  by pat_completeness auto

text \<open>
  Each round that does not leave the loop stores one byte, and nothing else changes
  \<^verbatim>\<open>capture_len\<close>: the distance to \<open>CAPTURE_SIZE\<close> decreases.
\<close>

termination capture_loop
proof (relation "measure (\<lambda>(h, start_time, s). nat (CAPTURE_SIZE - capture_len s))")
  show "wf (measure (\<lambda>(h, start_time, s). nat (CAPTURE_SIZE - capture_len s)))"
    by simp
next
  fix h :: hw and start_time :: int and s s1 s2 s3 :: state and now :: int
    and byte :: u8 and enabled :: bool
  assume lt: "capture_len s < CAPTURE_SIZE"
    and t: "(now, s1) = esp_timer_get_time h s"
    and b: "(byte, s2) = read_byte_raw h s1"
    and e: "(enabled, s3) = drive_enabled h (store_byte byte s2)"
  have loop: "capture_len (snd (read_byte_loop h n v u)) = capture_len u" for n v u
    by (induction n arbitrary: v u)
      (simp_all add: read_wrdata_def gpio_get_level_def esp_rom_delay_us_def call_def)
  have "capture_len s1 = capture_len s"
    using t by (simp add: esp_timer_get_time_def call_def)
  moreover have "capture_len s2 = capture_len s1"
    using b loop [of 8 0 s1] by (simp add: read_byte_raw_def) (metis snd_conv)
  moreover have "capture_len s3 = capture_len s2 + 1"
    using e by (auto simp: drive_enabled_def gpio_get_level_def call_def store_byte_def
        split: if_splits)
  ultimately show "((h, start_time, s3), (h, start_time, s)) \<in>
      measure (\<lambda>(h, start_time, s). nat (CAPTURE_SIZE - capture_len s))"
    using lt by simp
qed

declare capture_loop.simps [simp del]

subsection \<open>One capture session\<close>

text \<open>
  \<^verbatim>\<open>capture_packet\<close>. The first timer reading is overwritten before it is used; the
  second one, taken after the activity check, is the start of the capture timeout.
  The local \<^verbatim>\<open>transitions\<close> is \<open>transitions_seen\<close> here (the name is a field of
  \<open>activity\<close>).
\<close>

definition capture_packet :: "hw \<Rightarrow> state \<Rightarrow> (exit \<times> state) option" where
  "capture_packet h s =
     (case esp_timer_get_time h s of (unused_start_time, s0) \<Rightarrow>
      case wait_for_write_mode h 50000 (printf DEBUG_WAITING (s0\<lparr>capture_len := 0\<rparr>)) of
        None \<Rightarrow> None
      | Some (write_mode, s1) \<Rightarrow>
          if \<not> write_mode then
            Some (NO_WRITE_MODE, print_levels h (printf DEBUG_TIMEOUT s1))
          else
            (case check_wrdata_activity h 2000 (printf DEBUG_WRITE_MODE s1) of
               None \<Rightarrow> None
             | Some (transitions_seen, s2) \<Rightarrow>
                 (case esp_timer_get_time h
                         (if transitions_seen = 0
                          then print_levels h (printf DEBUG_NO_TRANSITIONS s2)
                          else s2) of
                    (start_time, s3) \<Rightarrow> Some (capture_loop h start_time s3))))"

subsection \<open>Sampling instants and example runs\<close>

text \<open>
  A call of \<^verbatim>\<open>read_byte_raw\<close> that starts at tick \<open>t\<close> makes 24 service calls: for
  each of the eight bit cells a delay, one read of the line, and a delay. The read
  of cell \<open>i\<close> is the call of tick \<open>t + 3 * i + 1\<close>; \<open>wrdata_sample h t i\<close> is what it
  sees. (A name for these instants, used to state the properties; not a function
  of the source.)
\<close>

definition wrdata_sample :: "hw \<Rightarrow> nat \<Rightarrow> nat \<Rightarrow> bool" where
  "wrdata_sample h t i = (level_at h (t + 3 * i + 1) PIN_WRDATA \<noteq> 0)"

definition bit_cell :: "service list" where
  "bit_cell = [Esp_rom_delay_us 2, Gpio_get_level PIN_WRDATA, Esp_rom_delay_us 2]"

text \<open>One round of the loop of \<^verbatim>\<open>read_byte_raw\<close> on the byte, for bit cell \<open>i\<close>.\<close>

definition shift_in :: "hw \<Rightarrow> nat \<Rightarrow> u8 \<Rightarrow> nat \<Rightarrow> u8" where
  "shift_in h t byte i = push_bit 1 byte OR (if wrdata_sample h t i then 1 else 0)"

text \<open>The state at the start of a run: an array of 128 zero bytes, nothing done yet.\<close>

definition boot_state :: state where
  "boot_state =
     \<lparr>capture_buffer = replicate 128 0, capture_len = 0, tick = 0,
      calls = [], writes = [], console = []\<rparr>"

text \<open>
  Hardware for the examples. \<open>wrdata_line bits\<close>: the write-data line carries the
  listed levels, one per bit cell of three ticks (level 0 after the last); every other
  pin is high and the timer stands at 0.
\<close>

definition wrdata_line :: "int list \<Rightarrow> hw" where
  "wrdata_line bits =
     \<lparr>level_at = (\<lambda>t p. if p = PIN_WRDATA
                          then (if t div 3 < length bits then bits ! (t div 3) else 0)
                          else 1),
      time_at = (\<lambda>t. 0)\<rparr>"

text \<open>
  \<open>deselect_at T\<close>: the write request is low from the start, the timer reads 0 for
  the first six calls and 5000 afterwards, the write-data line is high, and both
  enable lines are low (drive enabled) at the calls before tick \<open>T\<close> and high from
  tick \<open>T\<close> on. \<open>idle_bus\<close>: every pin stays high and the timer advances 30 ms
  with each call.
\<close>

definition deselect_at :: "nat \<Rightarrow> hw" where
  "deselect_at T =
     \<lparr>level_at = (\<lambda>t p. if p = PIN_WREQ then 0
                          else if p = PIN_ENBL1 \<or> p = PIN_ENBL2 then (if t < T then 0 else 1)
                          else 1),
      time_at = (\<lambda>t. if t < 6 then 0 else 5000)\<rparr>"

definition idle_bus :: hw where
  "idle_bus = \<lparr>level_at = (\<lambda>t p. 1), time_at = (\<lambda>t. 30000 * int t)\<rparr>"

subsection \<open>Names used in the properties\<close>

text \<open>
  \<open>kept s s'\<close>: the two globals and the list of stores are the same in \<open>s'\<close> as in \<open>s\<close>.
  \<open>round_check h s\<close>: the rest of a round of the capture loop that starts in state \<open>s\<close>
  and passes the timeout test: the byte is read and stored, and \<^verbatim>\<open>drive_enabled()\<close>
  is called; the value is what that call returns and the state after it.
\<close>

definition kept :: "state \<Rightarrow> state \<Rightarrow> bool" where
  "kept s s' =
     (capture_buffer s' = capture_buffer s \<and> capture_len s' = capture_len s \<and>
      writes s' = writes s)"

definition round_check :: "hw \<Rightarrow> state \<Rightarrow> bool \<times> state" where
  "round_check h s =
     (case read_byte_raw h (snd (esp_timer_get_time h s)) of
        (byte, s2) \<Rightarrow> drive_enabled h (store_byte byte s2))"

section \<open>Properties\<close>

subsection \<open>The command table\<close>

lemma get_command_name_cases:
  "get_command_name c \<in> set command_table \<union> {''UNKNOWN''}"
  by (simp add: get_command_name_def command_table_def)

lemma get_command_name_codes:
  "map get_command_name [0x00, 0x01, 0x02, 0x03, 0x04, 0x05, 0x06, 0x07, 0x08, 0x09] =
     command_table"
  by (simp add: get_command_name_def command_table_def)

lemma u8_of_unat: "unat (c::u8) = n \<Longrightarrow> c = of_nat n"
  by auto

lemma unat_u8_cases:
  fixes c :: u8
  assumes "unat c < 10"
  shows "c \<in> {0, 1, 2, 3, 4, 5, 6, 7, 8, 9}"
proof -
  have "unat c \<in> {0, 1, 2, 3, 4, 5, 6, 7, 8, 9}"
    using assms by auto
  then show ?thesis
    by (auto dest!: u8_of_unat)
qed

lemma get_command_name_nth:
  "get_command_name c = (if unat c < 10 then command_table ! unat c else ''UNKNOWN'')"
proof (cases "unat c < 10")
  case True
  from unat_u8_cases [OF this] show ?thesis
    by (auto simp: get_command_name_def command_table_def)
next
  case False
  then have "c \<notin> {0, 1, 2, 3, 4, 5, 6, 7, 8, 9}"
    by auto
  with False show ?thesis
    by (simp add: get_command_name_def)
qed

lemma range_get_command_name:
  "range get_command_name = set command_table \<union> {''UNKNOWN''}"
proof
  show "range get_command_name \<subseteq> set command_table \<union> {''UNKNOWN''}"
    using get_command_name_cases by blast
  have "set command_table \<subseteq> range get_command_name"
    unfolding get_command_name_codes [symmetric] by auto
  moreover have "get_command_name 0x0A = ''UNKNOWN''"
    by (simp add: get_command_name_def)
  then have "''UNKNOWN'' \<in> range get_command_name"
    by (metis rangeI)
  ultimately show "set command_table \<union> {''UNKNOWN''} \<subseteq> range get_command_name"
    by simp
qed

lemma card_range_get_command_name: "card (range get_command_name) = 11"
  unfolding range_get_command_name by (simp add: command_table_def)

lemma card_named_commands: "card (range get_command_name - {''UNKNOWN''}) = 10"
  unfolding range_get_command_name by (simp add: command_table_def)

text \<open>
  C3, as stated, counts ten entries in the table, nine of them named. The switch has
  ten named cases and the default: the count of the claim fails.
\<close>

theorem get_command_name_entries_counterexample:
  "\<not> (card (range get_command_name) = 10 \<and>
      card (range get_command_name - {''UNKNOWN''}) = 9)"
  by (simp add: card_range_get_command_name)

text \<open>
  C3 (amended): \<open>get_command_name\<close> is a function of the byte alone, defined on every
  byte. The codes \<open>0x00\<close> to \<open>0x09\<close> map, in this order, to STATUS, READBLOCK,
  WRITEBLOCK, FORMAT, CONTROL, INIT, OPEN, CLOSE, READ, WRITE; every other byte maps
  to UNKNOWN. The table has eleven entries: ten named ones and UNKNOWN.
\<close>

theorem get_command_name_table:
  "get_command_name c = (if unat c < 10 then command_table ! unat c else ''UNKNOWN'') \<and>
   map get_command_name [0x00, 0x01, 0x02, 0x03, 0x04, 0x05, 0x06, 0x07, 0x08, 0x09] =
     [''STATUS'', ''READBLOCK'', ''WRITEBLOCK'', ''FORMAT'', ''CONTROL'',
      ''INIT'', ''OPEN'', ''CLOSE'', ''READ'', ''WRITE''] \<and>
   card (range get_command_name - {''UNKNOWN''}) = 10 \<and>
   card (range get_command_name) = 11"
  using get_command_name_nth [of c] get_command_name_codes
    card_named_commands card_range_get_command_name
  by (simp add: command_table_def)

subsection \<open>The sync search\<close>

lemma sizeof_SYNC_PATTERN_eq: "sizeof_SYNC_PATTERN = 6"
  by (simp add: sizeof_SYNC_PATTERN_def SYNC_PATTERN_def)

lemma match_loop_end: "\<not> j < 6 \<Longrightarrow> match_loop buf i j = (True, [])"
  by (subst match_loop.simps) (simp add: sizeof_SYNC_PATTERN_eq)

lemma match_loop_step:
  "j < 6 \<Longrightarrow> match_loop buf i j =
     (if buf ! nat (i + j) \<noteq> SYNC_PATTERN ! nat j then (False, [i + j])
      else (fst (match_loop buf i (j + 1)), (i + j) # snd (match_loop buf i (j + 1))))"
  by (subst match_loop.simps)
    (simp add: sizeof_SYNC_PATTERN_eq capture_buffer_at_def split_beta)

lemma match_loop_fst:
  "fst (match_loop buf i j) =
     (\<forall>k. j \<le> k \<and> k < 6 \<longrightarrow> buf ! nat (i + k) = SYNC_PATTERN ! nat k)"
proof (induction "nat (6 - j)" arbitrary: j)
  case 0
  then have "\<not> j < 6" by simp
  then show ?case
    by (auto simp: match_loop_end)
next
  case (Suc n)
  then have lt: "j < 6" and n: "n = nat (6 - (j + 1))"
    by auto
  have split: "(\<forall>k. j \<le> k \<and> k < 6 \<longrightarrow> P k) = (P j \<and> (\<forall>k. j + 1 \<le> k \<and> k < 6 \<longrightarrow> P k))"
    for P :: "int \<Rightarrow> bool"
    using lt by (metis add1_zle_eq order_le_less order_refl)
  show ?case
    unfolding split using Suc.hyps(1) [OF n] lt
    by (simp add: match_loop_step)
qed

lemma match_loop_reads:
  "x \<in> set (snd (match_loop buf i j)) \<Longrightarrow> i + j \<le> x \<and> x < i + 6"
proof (induction "nat (6 - j)" arbitrary: j)
  case 0
  then have "\<not> j < 6" by simp
  with "0.prems" show ?case
    by (simp add: match_loop_end)
next
  case (Suc n)
  then have lt: "j < 6" and n: "n = nat (6 - (j + 1))"
    by auto
  from Suc.prems Suc.hyps(1) [OF n] lt show ?case
    by (auto simp: match_loop_step split: if_splits)
qed

lemma sync_loop_end: "\<not> i \<le> len - 6 \<Longrightarrow> sync_loop buf len i = (-1, [])"
  by (subst sync_loop.simps) (simp add: sizeof_SYNC_PATTERN_eq)

lemma sync_loop_step:
  "i \<le> len - 6 \<Longrightarrow> sync_loop buf len i =
     (if fst (match_loop buf i 0) then (i, snd (match_loop buf i 0))
      else (fst (sync_loop buf len (i + 1)),
            snd (match_loop buf i 0) @ snd (sync_loop buf len (i + 1))))"
  by (subst sync_loop.simps) (simp add: sizeof_SYNC_PATTERN_eq split_beta)

lemma sync_loop_fst:
  "(fst (sync_loop buf len i) = -1 \<and>
      (\<forall>k. i \<le> k \<and> k \<le> len - 6 \<longrightarrow> \<not> fst (match_loop buf k 0))) \<or>
   (i \<le> fst (sync_loop buf len i) \<and> fst (sync_loop buf len i) \<le> len - 6 \<and>
      fst (match_loop buf (fst (sync_loop buf len i)) 0) \<and>
      (\<forall>k. i \<le> k \<and> k < fst (sync_loop buf len i) \<longrightarrow> \<not> fst (match_loop buf k 0)))"
proof (induction "nat (len - 5 - i)" arbitrary: i)
  case 0
  then have "\<not> i \<le> len - 6" by simp
  then show ?case
    by (auto simp: sync_loop_end)
next
  case (Suc n)
  then have le: "i \<le> len - 6" and n: "n = nat (len - 5 - (i + 1))"
    by auto
  show ?case
  proof (cases "fst (match_loop buf i 0)")
    case True
    with le show ?thesis
      by (auto simp: sync_loop_step)
  next
    case False
    have eq: "fst (sync_loop buf len i) = fst (sync_loop buf len (i + 1))"
      using le False by (simp add: sync_loop_step)
    have nm: "\<not> fst (match_loop buf k 0)"
      if "i \<le> k" "i + 1 \<le> k \<Longrightarrow> \<not> fst (match_loop buf k 0)" for k
      using that False by (cases "k = i") auto
    let ?r = "fst (sync_loop buf len (i + 1))"
    from Suc.hyps(1) [OF n] show ?thesis
    proof (elim disjE conjE)
      assume "?r = -1" and none: "\<forall>k. i + 1 \<le> k \<and> k \<le> len - 6 \<longrightarrow> \<not> fst (match_loop buf k 0)"
      moreover have "\<forall>k. i \<le> k \<and> k \<le> len - 6 \<longrightarrow> \<not> fst (match_loop buf k 0)"
        using none nm by blast
      ultimately show ?thesis unfolding eq by blast
    next
      assume "i + 1 \<le> ?r" "?r \<le> len - 6" "fst (match_loop buf ?r 0)"
        and none: "\<forall>k. i + 1 \<le> k \<and> k < ?r \<longrightarrow> \<not> fst (match_loop buf k 0)"
      moreover have "\<forall>k. i \<le> k \<and> k < ?r \<longrightarrow> \<not> fst (match_loop buf k 0)"
        using none nm by blast
      moreover have "i \<le> ?r"
        using \<open>i + 1 \<le> ?r\<close> by simp
      ultimately show ?thesis unfolding eq by blast
    qed
  qed
qed

lemma sync_loop_reads:
  "x \<in> set (snd (sync_loop buf len i)) \<Longrightarrow> i \<le> x \<and> x < len"
proof (induction "nat (len - 5 - i)" arbitrary: i)
  case 0
  then have "\<not> i \<le> len - 6" by simp
  with "0.prems" show ?case
    by (simp add: sync_loop_end)
next
  case (Suc n)
  then have le: "i \<le> len - 6" and n: "n = nat (len - 5 - (i + 1))"
    by auto
  from Suc.prems Suc.hyps(1) [OF n] le show ?case
    by (auto simp: sync_loop_step split: if_splits dest!: match_loop_reads)
qed


lemma marker_at_length: "marker_at cap k \<Longrightarrow> k + 6 \<le> length cap"
proof -
  assume "marker_at cap k"
  then have "length (take 6 (drop k cap)) = 6"
    by (simp add: marker_at_def SYNC_PATTERN_def)
  then show ?thesis by simp
qed

lemma marker_at_nth:
  "k + 6 \<le> length cap \<Longrightarrow> marker_at cap k = (\<forall>j<6. cap ! (k + j) = SYNC_PATTERN ! j)"
  by (auto simp: marker_at_def list_eq_iff_nth_eq SYNC_PATTERN_def)

lemma match_loop_marker_at:
  assumes "0 \<le> i" "i \<le> len - 6" "nat len \<le> length buf"
  shows "fst (match_loop buf i 0) = marker_at (take (nat len) buf) (nat i)"
proof -
  have len: "nat i + 6 \<le> length (take (nat len) buf)"
    using assms by simp
  have "(\<forall>k. 0 \<le> k \<and> k < 6 \<longrightarrow> buf ! nat (i + k) = SYNC_PATTERN ! nat k) =
        (\<forall>j<6. buf ! (nat i + j) = SYNC_PATTERN ! j)"
  proof
    assume l: "\<forall>k. 0 \<le> k \<and> k < 6 \<longrightarrow> buf ! nat (i + k) = SYNC_PATTERN ! nat k"
    show "\<forall>j<6. buf ! (nat i + j) = SYNC_PATTERN ! j"
    proof (intro allI impI)
      fix j :: nat assume "j < 6"
      with l [rule_format, of "int j"] assms(1) show "buf ! (nat i + j) = SYNC_PATTERN ! j"
        by (simp add: nat_add_distrib)
    qed
  next
    assume r: "\<forall>j<6. buf ! (nat i + j) = SYNC_PATTERN ! j"
    show "\<forall>k. 0 \<le> k \<and> k < 6 \<longrightarrow> buf ! nat (i + k) = SYNC_PATTERN ! nat k"
    proof (intro allI impI)
      fix k :: int assume "0 \<le> k \<and> k < 6"
      with r [rule_format, of "nat k"] assms(1) show "buf ! nat (i + k) = SYNC_PATTERN ! nat k"
        by (auto simp: nat_add_distrib)
    qed
  qed
  moreover have "(\<forall>j<6. buf ! (nat i + j) = SYNC_PATTERN ! j) =
        (\<forall>j<6. take (nat len) buf ! (nat i + j) = SYNC_PATTERN ! j)"
    using assms by auto
  ultimately show ?thesis
    by (simp add: match_loop_fst marker_at_nth [OF len])
qed

lemma find_sync_pattern_spec:
  assumes "0 \<le> len" "nat len \<le> length buf"
  shows "(fst (find_sync_pattern buf len) = -1 \<and> (\<forall>k. \<not> marker_at (take (nat len) buf) k)) \<or>
         (0 \<le> fst (find_sync_pattern buf len) \<and>
          fst (find_sync_pattern buf len) + 6 \<le> len \<and>
          marker_at (take (nat len) buf) (nat (fst (find_sync_pattern buf len))) \<and>
          (\<forall>k < nat (fst (find_sync_pattern buf len)). \<not> marker_at (take (nat len) buf) k))"
proof (cases "len < 6")
  case True
  have "\<not> marker_at (take (nat len) buf) k" for k
    using marker_at_length [of "take (nat len) buf" k] True by auto
  with True show ?thesis
    by (simp add: find_sync_pattern_def sizeof_SYNC_PATTERN_eq)
next
  case False
  let ?cap = "take (nat len) buf"
  let ?r = "fst (sync_loop buf len 0)"
  have eq: "find_sync_pattern buf len = sync_loop buf len 0"
    using False by (simp add: find_sync_pattern_def sizeof_SYNC_PATTERN_eq)
  have m: "fst (match_loop buf k 0) = marker_at ?cap (nat k)" if "0 \<le> k" "k \<le> len - 6" for k
    using match_loop_marker_at [OF that assms(2)] .
  from sync_loop_fst [of buf len 0] show ?thesis
  proof
    assume a: "?r = -1 \<and> (\<forall>k. 0 \<le> k \<and> k \<le> len - 6 \<longrightarrow> \<not> fst (match_loop buf k 0))"
    have "\<not> marker_at ?cap k" for k
    proof
      assume k: "marker_at ?cap k"
      from marker_at_length [OF k] assms have "int k \<le> len - 6"
        by simp
      with a m [of "int k"] k show False
        by simp
    qed
    with a show ?thesis
      unfolding eq by simp
  next
    assume b: "0 \<le> ?r \<and> ?r \<le> len - 6 \<and> fst (match_loop buf ?r 0) \<and>
      (\<forall>k. 0 \<le> k \<and> k < ?r \<longrightarrow> \<not> fst (match_loop buf k 0))"
    then have "marker_at ?cap (nat ?r)"
      using m [of ?r] by simp
    moreover have "\<not> marker_at ?cap k" if "k < nat ?r" for k
    proof -
      from that b have "0 \<le> int k \<and> int k < ?r \<and> int k \<le> len - 6"
        by auto
      with b m [of "int k"] show ?thesis
        by auto
    qed
    ultimately show ?thesis
      unfolding eq using b by auto
  qed
qed

text \<open>
  C2: \<open>find_sync_pattern\<close> is an exact search for the marker FF 3F CF F3 FC FF in the
  captured bytes (the first \<open>capture_len\<close> bytes of the array). It returns \<open>-1\<close> when
  fewer than six bytes were captured and when the marker occurs nowhere; when the
  marker occurs at some offset \<open>k\<close>, it returns an offset where the marker stands
  and that is at most \<open>k\<close>: the leftmost occurrence.
\<close>

theorem find_sync_pattern_leftmost:
  assumes "0 \<le> len" "nat len \<le> length buf"
  shows "(len < 6 \<longrightarrow> fst (find_sync_pattern buf len) = -1) \<and>
         ((\<forall>k. \<not> marker_at (take (nat len) buf) k) \<longrightarrow> fst (find_sync_pattern buf len) = -1) \<and>
         (\<forall>k. marker_at (take (nat len) buf) k \<longrightarrow>
            0 \<le> fst (find_sync_pattern buf len) \<and>
            marker_at (take (nat len) buf) (nat (fst (find_sync_pattern buf len))) \<and>
            nat (fst (find_sync_pattern buf len)) \<le> k)"
proof -
  have short: "\<not> marker_at (take (nat len) buf) k" if "len < 6" for k
    using marker_at_length [of "take (nat len) buf" k] that by auto
  from find_sync_pattern_spec [OF assms] show ?thesis
  proof
    assume "fst (find_sync_pattern buf len) = -1 \<and> (\<forall>k. \<not> marker_at (take (nat len) buf) k)"
    then show ?thesis by simp
  next
    assume found: "0 \<le> fst (find_sync_pattern buf len) \<and>
      fst (find_sync_pattern buf len) + 6 \<le> len \<and>
      marker_at (take (nat len) buf) (nat (fst (find_sync_pattern buf len))) \<and>
      (\<forall>k < nat (fst (find_sync_pattern buf len)). \<not> marker_at (take (nat len) buf) k)"
    then have "nat (fst (find_sync_pattern buf len)) \<le> k" if "marker_at (take (nat len) buf) k" for k
      using that by (meson not_le)
    with found short show ?thesis
      by blast
  qed
qed

text \<open>
  A capture of nine bytes with a broken start of the marker (FF 3F) before the real
  one: the marker stands at offset 2, and the search returns 2.
\<close>

theorem find_sync_pattern_leftmost_witness:
  "(0::int) \<le> 9 \<and>
   nat 9 \<le> length [0xFF, 0x3F, 0xFF, 0x3F, 0xCF, 0xF3, 0xFC, 0xFF, 0xC3 :: u8] \<and>
   marker_at (take (nat 9) [0xFF, 0x3F, 0xFF, 0x3F, 0xCF, 0xF3, 0xFC, 0xFF, 0xC3]) 2 \<and>
   fst (find_sync_pattern [0xFF, 0x3F, 0xFF, 0x3F, 0xCF, 0xF3, 0xFC, 0xFF, 0xC3] 9) = 2"
proof -
  let ?B = "[0xFF, 0x3F, 0xFF, 0x3F, 0xCF, 0xF3, 0xFC, 0xFF, 0xC3 :: u8]"
  have h1: "(0::int) \<le> 9"
    by simp
  have h2: "nat 9 \<le> length ?B"
    by simp
  have m: "marker_at (take (nat 9) ?B) 2"
    by (simp add: marker_at_def SYNC_PATTERN_def)
  have n: "\<not> marker_at (take (nat 9) ?B) 0" "\<not> marker_at (take (nat 9) ?B) 1"
    by (simp_all add: marker_at_def SYNC_PATTERN_def)
  from find_sync_pattern_leftmost [OF h1 h2] m
  have r: "0 \<le> fst (find_sync_pattern ?B 9)"
    "marker_at (take (nat 9) ?B) (nat (fst (find_sync_pattern ?B 9)))"
    "nat (fst (find_sync_pattern ?B 9)) \<le> 2"
    by blast+
  from r(2,3) n have "nat (fst (find_sync_pattern ?B 9)) = 2"
    by (cases "nat (fst (find_sync_pattern ?B 9)) = 0";
        cases "nat (fst (find_sync_pattern ?B 9)) = 1") auto
  with r(1) have "fst (find_sync_pattern ?B 9) = 2"
    by simp
  with h2 m show ?thesis
    by simp
qed

subsection \<open>The packet decoder and the classification without sync\<close>

lemma decode_packet_eq:
  "decode_packet buf len so =
     (if so + 6 < len \<and> buf ! nat (so + 6) = 0xC3 then
        (if so + 6 + 8 < len then
           ([SYNC_FOUND so, PKT_START (so + 6),
             PKT_HEADER (buf ! nat (so + 6 + 1)) (buf ! nat (so + 6 + 2)) (buf ! nat (so + 6 + 3))] @
            (if buf ! nat (so + 6 + 3) = 0x80 \<or> buf ! nat (so + 6 + 3) = 0x85
             then [CMD (buf ! nat (so + 6 + 8)) (get_command_name (buf ! nat (so + 6 + 8)))]
             else []),
            [so + 6, so + 6 + 1, so + 6 + 2, so + 6 + 3, so + 6 + 8])
         else ([SYNC_FOUND so, PKT_START (so + 6)], [so + 6]))
      else ([SYNC_FOUND so], if so + 6 < len then [so + 6] else []))"
  by (simp add: decode_packet_def capture_buffer_at_def sizeof_SYNC_PATTERN_eq Let_def)

lemma decode_packet_reads:
  "0 \<le> so \<Longrightarrow> k \<in> set (snd (decode_packet buf len so)) \<Longrightarrow> 0 \<le> k \<and> k < len"
  by (auto simp: decode_packet_eq split: if_splits)

lemma classify_fold:
  "fold (classify_step buf) idx (z, w) =
     (z \<and> (\<forall>i \<in> set idx. buf ! nat i = 0x00), w \<and> (\<forall>i \<in> set idx. buf ! nat i = 0xFF))"
  by (induction idx arbitrary: z w) (auto simp: classify_step_def)

lemma classify_no_sync_eq:
  "classify_no_sync buf len =
     ([if \<forall>i. 0 \<le> i \<and> i < len \<longrightarrow> buf ! nat i = 0x00 then WARN_ALL_ZEROS
       else if \<forall>i. 0 \<le> i \<and> i < len \<longrightarrow> buf ! nat i = 0xFF then WARN_ALL_ONES
       else INFO_NO_SYNC],
      concat (map (\<lambda>i. [i, i]) [0..len - 1]))"
proof -
  have z: "(\<forall>i \<in> set [0..len - 1]. buf ! nat i = 0x00) =
      (\<forall>i. 0 \<le> i \<and> i < len \<longrightarrow> buf ! nat i = 0x00)"
    by auto
  have w: "(\<forall>i \<in> set [0..len - 1]. buf ! nat i = 0xFF) =
      (\<forall>i. 0 \<le> i \<and> i < len \<longrightarrow> buf ! nat i = 0xFF)"
    by auto
  have "fold (classify_step buf) [0..len - 1] (True, True) =
      (\<forall>i. 0 \<le> i \<and> i < len \<longrightarrow> buf ! nat i = 0x00,
       \<forall>i. 0 \<le> i \<and> i < len \<longrightarrow> buf ! nat i = 0xFF)"
    unfolding classify_fold z w by (simp only: simp_thms)
  then show ?thesis
    unfolding classify_no_sync_def Let_def by (simp only: prod.case)
qed

lemma classify_no_sync_reads:
  "k \<in> set (snd (classify_no_sync buf len)) \<Longrightarrow> 0 \<le> k \<and> k < len"
  by (auto simp: classify_no_sync_eq)

lemma hex_dump_reads:
  "k \<in> set (snd (hex_dump buf len)) \<Longrightarrow> 0 \<le> k \<and> k < len"
  by (auto simp: hex_dump_def Let_def split: if_splits)

lemma find_sync_pattern_reads:
  "k \<in> set (snd (find_sync_pattern buf len)) \<Longrightarrow> 0 \<le> k \<and> k < len"
  by (auto simp: find_sync_pattern_def dest: sync_loop_reads split: if_splits)

lemma analyze_capture_eq:
  "analyze_capture buf len =
     (fst (hex_dump buf len) #
        fst (if fst (find_sync_pattern buf len) \<ge> 0
             then decode_packet buf len (fst (find_sync_pattern buf len))
             else classify_no_sync buf len),
      snd (hex_dump buf len) @ snd (find_sync_pattern buf len) @
        snd (if fst (find_sync_pattern buf len) \<ge> 0
             then decode_packet buf len (fst (find_sync_pattern buf len))
             else classify_no_sync buf len))"
  by (simp add: analyze_capture_def split_beta)

lemma analyze_capture_reads:
  "k \<in> set (snd (analyze_capture buf len)) \<Longrightarrow> 0 \<le> k \<and> k < len"
  using hex_dump_reads [of k buf len] find_sync_pattern_reads [of k buf len]
    classify_no_sync_reads [of k buf len]
    decode_packet_reads [of "fst (find_sync_pattern buf len)" k buf len]
  by (auto simp: analyze_capture_eq split: if_splits)


lemma find_sync_pattern_at_start:
  assumes "0 \<le> len" "nat len \<le> length buf" "marker_at (take (nat len) buf) 0"
  shows "fst (find_sync_pattern buf len) = 0"
proof -
  let ?r = "fst (find_sync_pattern buf len)"
  from find_sync_pattern_spec [OF assms(1,2)] assms(3)
  have r: "0 \<le> ?r" and before: "\<forall>k < nat ?r. \<not> marker_at (take (nat len) buf) k"
    by blast+
  have "\<not> 0 < nat ?r"
    using before assms(3) by blast
  with r show ?thesis
    by simp
qed

text \<open>
  C1: when the captured bytes are the sync marker, the byte C3, \<open>dest\<close>, \<open>src\<close>, the type
  \<open>0x80\<close>, four more bytes and \<open>cmd\<close> (and anything after them), \<open>analyze_capture\<close>
  finds the sync at offset 0 and the packet start at offset 6, and prints \<open>dest\<close>, \<open>src\<close>,
  the type \<open>0x80\<close>, and \<open>cmd\<close> with its name: the entry of the table for the codes
  \<open>0x00\<close> to \<open>0x09\<close>, UNKNOWN for every other byte.
\<close>

theorem analyze_capture_command_packet:
  assumes "0 \<le> len" "nat len \<le> length buf"
    and "take (nat len) buf =
           SYNC_PATTERN @ [0xC3, dest, src, 0x80, aux, status, oddcnt, grpcnt, cmd] @ rest"
  shows "fst (analyze_capture buf len) =
           [fst (hex_dump buf len), SYNC_FOUND 0, PKT_START 6,
            PKT_HEADER dest src 0x80, CMD cmd (get_command_name cmd)] \<and>
         get_command_name cmd =
           (if unat cmd < 10 then command_table ! unat cmd else ''UNKNOWN'')"
proof -
  let ?cap = "take (nat len) buf"
  have "length ?cap = 15 + length rest"
    unfolding assms(3) by (simp add: SYNC_PATTERN_def)
  then have len: "15 \<le> len"
    using assms(2) by simp
  have nth: "?cap ! n = buf ! n" if "n < 15" for n
    using that len by simp
  have "?cap ! 6 = 0xC3" "?cap ! 7 = dest" "?cap ! 8 = src" "?cap ! 9 = 0x80" "?cap ! 14 = cmd"
    unfolding assms(3) by (simp_all add: SYNC_PATTERN_def)
  then have cap: "buf ! 6 = 0xC3" "buf ! 7 = dest" "buf ! 8 = src" "buf ! 9 = 0x80" "buf ! 14 = cmd"
    by (simp_all only: nth [of 6] nth [of 7] nth [of 8] nth [of 9] nth [of 14] simp_thms)
  have "marker_at ?cap 0"
    unfolding assms(3) by (simp add: marker_at_def SYNC_PATTERN_def)
  then have "fst (find_sync_pattern buf len) = 0"
    by (rule find_sync_pattern_at_start [OF assms(1,2)])
  then have "fst (analyze_capture buf len) = fst (hex_dump buf len) # fst (decode_packet buf len 0)"
    by (simp add: analyze_capture_eq)
  moreover have "fst (decode_packet buf len 0) =
      [SYNC_FOUND 0, PKT_START 6, PKT_HEADER dest src 0x80, CMD cmd (get_command_name cmd)]"
    using len cap by (simp add: decode_packet_eq)
  ultimately show ?thesis
    using get_command_name_nth [of cmd] by simp
qed

text \<open>
  C4: for every array, every captured length and every sync offset \<open>\<ge> 0\<close> (the guard
  of the branch), each index the packet decoder reads lies in \<open>[0, capture_len)\<close>.
  When the capture ends at or before the command byte (\<open>pkt_start + 8\<close>), the decoder
  reads at most the packet-start byte and prints no header field: its whole output
  is the sync line, with the packet-start line when the byte is C3. When the
  capture ends at or before \<open>pkt_start\<close> itself, the decoder reads nothing. The
  same bound holds for every read of the whole of \<open>analyze_capture\<close>, where the sync
  offset is the result of \<open>find_sync_pattern\<close>.
\<close>

theorem decode_packet_within_capture:
  assumes "0 \<le> sync_offset"
  shows "(\<forall>k \<in> set (snd (decode_packet buf len sync_offset)). 0 \<le> k \<and> k < len) \<and>
         (len \<le> sync_offset + 6 + 8 \<longrightarrow>
            set (snd (decode_packet buf len sync_offset)) \<subseteq> {sync_offset + 6} \<and>
            (fst (decode_packet buf len sync_offset) = [SYNC_FOUND sync_offset] \<or>
             fst (decode_packet buf len sync_offset) =
               [SYNC_FOUND sync_offset, PKT_START (sync_offset + 6)])) \<and>
         (len \<le> sync_offset + 6 \<longrightarrow>
            decode_packet buf len sync_offset = ([SYNC_FOUND sync_offset], [])) \<and>
         (\<forall>k \<in> set (snd (analyze_capture buf len)). 0 \<le> k \<and> k < len)"
proof (intro conjI)
  show "\<forall>k \<in> set (snd (decode_packet buf len sync_offset)). 0 \<le> k \<and> k < len"
    using decode_packet_reads [OF assms] by blast
  show "len \<le> sync_offset + 6 + 8 \<longrightarrow>
      set (snd (decode_packet buf len sync_offset)) \<subseteq> {sync_offset + 6} \<and>
      (fst (decode_packet buf len sync_offset) = [SYNC_FOUND sync_offset] \<or>
       fst (decode_packet buf len sync_offset) =
         [SYNC_FOUND sync_offset, PKT_START (sync_offset + 6)])"
    by (auto simp: decode_packet_eq)
  show "len \<le> sync_offset + 6 \<longrightarrow>
      decode_packet buf len sync_offset = ([SYNC_FOUND sync_offset], [])"
    by (simp add: decode_packet_eq)
  show "\<forall>k \<in> set (snd (analyze_capture buf len)). 0 \<le> k \<and> k < len"
    using analyze_capture_reads by blast
qed

lemma leftmost_marker_found:
  assumes "0 \<le> len" "nat len \<le> length buf"
    and "marker_at (take (nat len) buf) k" "\<forall>j<k. \<not> marker_at (take (nat len) buf) j"
  shows "fst (find_sync_pattern buf len) = int k"
proof -
  let ?r = "fst (find_sync_pattern buf len)"
  from find_sync_pattern_spec [OF assms(1,2)] assms(3)
  have r: "0 \<le> ?r" and at: "marker_at (take (nat len) buf) (nat ?r)"
    and before: "\<forall>j < nat ?r. \<not> marker_at (take (nat len) buf) j"
    by blast+
  have "\<not> k < nat ?r"
    using before assms(3) by blast
  moreover have "\<not> nat ?r < k"
    using assms(4) at by blast
  ultimately have "nat ?r = k"
    by simp
  with r show ?thesis
    by simp
qed

text \<open>
  C5 (amended): let the leftmost sync marker in the captured bytes stand at offset
  \<open>k\<close>; this is the offset \<open>find_sync_pattern\<close> returns, and no later marker is looked
  at. When the byte after it lies within the capture and is C3, the header is
  printed all or nothing: if the command byte (\<open>pkt_start + 8\<close>) lies within the
  captured length, \<open>dest\<close>, \<open>src\<close> and \<open>type\<close> (offsets \<open>+1\<close>, \<open>+2\<close>, \<open>+3\<close>) are printed,
  and the command with its name when the type is \<open>0x80\<close> or \<open>0x85\<close>, and the bytes at
  \<open>+4\<close> to \<open>+7\<close> are not read; otherwise nothing follows the packet-start line and only
  the packet-start byte is read. When the byte after the leftmost marker is not C3
  or lies beyond the capture, only the sync line is printed.
\<close>

theorem analyze_capture_header_all_or_nothing:
  assumes "0 \<le> len" "nat len \<le> length buf"
    and "marker_at (take (nat len) buf) k" "\<forall>j<k. \<not> marker_at (take (nat len) buf) j"
  shows "fst (find_sync_pattern buf len) = int k \<and>
         fst (analyze_capture buf len) =
           (if int k + 6 < len \<and> buf ! (k + 6) = 0xC3 then
              [fst (hex_dump buf len), SYNC_FOUND (int k), PKT_START (int k + 6)] @
              (if int k + 6 + 8 < len then
                 PKT_HEADER (buf ! (k + 7)) (buf ! (k + 8)) (buf ! (k + 9)) #
                 (if buf ! (k + 9) = 0x80 \<or> buf ! (k + 9) = 0x85
                  then [CMD (buf ! (k + 14)) (get_command_name (buf ! (k + 14)))]
                  else [])
               else [])
            else [fst (hex_dump buf len), SYNC_FOUND (int k)]) \<and>
         snd (decode_packet buf len (int k)) =
           (if int k + 6 < len \<and> buf ! (k + 6) = 0xC3 then
              (if int k + 6 + 8 < len then map (\<lambda>d. int k + 6 + d) [0, 1, 2, 3, 8]
               else [int k + 6])
            else if int k + 6 < len then [int k + 6] else [])"
proof -
  have r: "fst (find_sync_pattern buf len) = int k"
    using assms by (rule leftmost_marker_found)
  have n: "nat (int k + 6) = k + 6" "nat (int k + 6 + 1) = k + 7" "nat (int k + 6 + 2) = k + 8"
    "nat (int k + 6 + 3) = k + 9" "nat (int k + 6 + 8) = k + 14"
    by simp_all
  have a: "fst (analyze_capture buf len) = fst (hex_dump buf len) # fst (decode_packet buf len (int k))"
    by (simp add: analyze_capture_eq r)
  show ?thesis
    unfolding a decode_packet_eq n by (simp add: r)
qed

text \<open>
  C10: when no sync is found, the message is chosen by testing first whether every
  captured byte is \<open>0x00\<close>, then whether every captured byte is \<open>0xFF\<close>. The
  all-ones warning is printed exactly when some captured byte is not \<open>0x00\<close> and all
  are \<open>0xFF\<close>. A capture of length 0 passes both tests and gets the all-zeros warning.
\<close>

theorem analyze_capture_no_sync:
  assumes "fst (find_sync_pattern buf len) < 0"
  shows "fst (analyze_capture buf len) =
           [fst (hex_dump buf len),
            if \<forall>i. 0 \<le> i \<and> i < len \<longrightarrow> buf ! nat i = 0x00 then WARN_ALL_ZEROS
            else if \<forall>i. 0 \<le> i \<and> i < len \<longrightarrow> buf ! nat i = 0xFF then WARN_ALL_ONES
            else INFO_NO_SYNC] \<and>
         (WARN_ALL_ONES \<in> set (fst (analyze_capture buf len))) =
           (\<not> (\<forall>i. 0 \<le> i \<and> i < len \<longrightarrow> buf ! nat i = 0x00) \<and>
            (\<forall>i. 0 \<le> i \<and> i < len \<longrightarrow> buf ! nat i = 0xFF)) \<and>
         analyze_capture buf 0 = ([CAPTURE 0 [] False, WARN_ALL_ZEROS], [])"
proof -
  define Z where "Z = (\<forall>i. 0 \<le> i \<and> i < len \<longrightarrow> buf ! nat i = 0x00)"
  define W where "W = (\<forall>i. 0 \<le> i \<and> i < len \<longrightarrow> buf ! nat i = 0xFF)"
  have "fst (analyze_capture buf len) = fst (hex_dump buf len) # fst (classify_no_sync buf len)"
    using assms by (simp add: analyze_capture_eq)
  also have "fst (classify_no_sync buf len) =
      [if Z then WARN_ALL_ZEROS else if W then WARN_ALL_ONES else INFO_NO_SYNC]"
    unfolding Z_def W_def classify_no_sync_eq by (rule fst_conv)
  finally have out: "fst (analyze_capture buf len) =
      [fst (hex_dump buf len), if Z then WARN_ALL_ZEROS else if W then WARN_ALL_ONES else INFO_NO_SYNC]" .
  have head: "fst (hex_dump buf len) \<noteq> WARN_ALL_ONES"
    by (simp add: hex_dump_def Let_def)
  have ones: "(WARN_ALL_ONES \<in> set (fst (analyze_capture buf len))) = (\<not> Z \<and> W)"
    unfolding out using head by (cases Z; cases W) auto
  have empty: "analyze_capture buf 0 = ([CAPTURE 0 [] False, WARN_ALL_ZEROS], [])"
    by (simp add: analyze_capture_eq find_sync_pattern_def sizeof_SYNC_PATTERN_eq
        classify_no_sync_eq hex_dump_def)
  from out ones empty show ?thesis
    unfolding Z_def W_def by (intro conjI)
qed


text \<open>Two captures of 15 bytes: command \<open>0x01\<close> (READBLOCK) and command \<open>0x20\<close> (UNKNOWN).\<close>

theorem analyze_capture_command_packet_witness:
  "(0::int) \<le> 15 \<and>
   nat 15 \<le> length (SYNC_PATTERN @ [0xC3, 0x07, 0x00, 0x80, 0x00, 0x00, 0x00, 0x00, 0x01] @ replicate 113 0) \<and>
   fst (analyze_capture
          (SYNC_PATTERN @ [0xC3, 0x07, 0x00, 0x80, 0x00, 0x00, 0x00, 0x00, 0x01] @ replicate 113 0) 15) =
     [CAPTURE 15 (SYNC_PATTERN @ [0xC3, 0x07, 0x00, 0x80, 0x00, 0x00, 0x00, 0x00, 0x01]) False,
      SYNC_FOUND 0, PKT_START 6, PKT_HEADER 0x07 0x00 0x80, CMD 0x01 ''READBLOCK''] \<and>
   fst (analyze_capture
          (SYNC_PATTERN @ [0xC3, 0x07, 0x00, 0x80, 0x00, 0x00, 0x00, 0x00, 0x20] @ replicate 113 0) 15) =
     [CAPTURE 15 (SYNC_PATTERN @ [0xC3, 0x07, 0x00, 0x80, 0x00, 0x00, 0x00, 0x00, 0x20]) False,
      SYNC_FOUND 0, PKT_START 6, PKT_HEADER 0x07 0x00 0x80, CMD 0x20 ''UNKNOWN'']"
proof -
  let ?B = "\<lambda>c. SYNC_PATTERN @ [0xC3, 0x07, 0x00, 0x80, 0x00, 0x00, 0x00, 0x00, c :: u8] @ replicate 113 0"
  have h1: "(0::int) \<le> 15"
    by simp
  have h2: "nat 15 \<le> length (?B c)" for c
    by (simp add: SYNC_PATTERN_def)
  have h3: "take (nat 15) (?B c) =
      SYNC_PATTERN @ [0xC3, 0x07, 0x00, 0x80, 0x00, 0x00, 0x00, 0x00, c] @ []" for c
    by (simp add: SYNC_PATTERN_def)
  have head: "fst (hex_dump (?B c) 15) =
      CAPTURE 15 (SYNC_PATTERN @ [0xC3, 0x07, 0x00, 0x80, 0x00, 0x00, 0x00, 0x00, c]) False" for c
    by (simp add: hex_dump_def SYNC_PATTERN_def upto.simps)
  have names: "get_command_name 0x01 = ''READBLOCK''" "get_command_name 0x20 = ''UNKNOWN''"
    by (simp_all add: get_command_name_def)
  from analyze_capture_command_packet [OF h1 h2 h3, of "0x01"]
    analyze_capture_command_packet [OF h1 h2 h3, of "0x20"]
  show ?thesis
    using h2 [of 1] by (simp only: head names simp_thms h1)
qed

text \<open>
  A capture of ten bytes that ends after the type byte, and one of six bytes that
  ends with the marker.
\<close>

theorem decode_packet_within_capture_witness:
  "(0::int) \<le> 0 \<and>
   decode_packet (SYNC_PATTERN @ [0xC3, 0x07, 0x00, 0x80] @ replicate 118 0) 10 0 =
     ([SYNC_FOUND 0, PKT_START 6], [6]) \<and>
   decode_packet (SYNC_PATTERN @ replicate 122 0) 6 0 = ([SYNC_FOUND 0], [])"
proof -
  let ?B = "SYNC_PATTERN @ [0xC3, 0x07, 0x00, 0x80] @ replicate 118 (0::u8)"
  let ?C = "SYNC_PATTERN @ replicate 122 (0::u8)"
  have h: "(0::int) \<le> 0"
    by simp
  have c3: "?B ! 6 = 0xC3"
    by (simp add: SYNC_PATTERN_def)
  from decode_packet_within_capture [OF h, where buf = ?B and len = 10]
  have "fst (decode_packet ?B 10 0) = [SYNC_FOUND 0] \<or>
        fst (decode_packet ?B 10 0) = [SYNC_FOUND 0, PKT_START 6]"
    by simp
  moreover have "fst (decode_packet ?B 10 0) \<noteq> [SYNC_FOUND 0]"
    using c3 by (simp add: decode_packet_eq)
  moreover have "snd (decode_packet ?B 10 0) = [6]"
    using c3 by (simp add: decode_packet_eq)
  moreover from decode_packet_within_capture [OF h, where buf = ?C and len = 6]
  have "decode_packet ?C 6 0 = ([SYNC_FOUND 0], [])"
    by simp
  ultimately show ?thesis
    by (simp add: prod_eq_iff)
qed

text \<open>
  C5, as stated, fails: in a capture of ten bytes (marker, C3, dest, src, type) the
  offsets \<open>+1\<close>, \<open>+2\<close> and \<open>+3\<close> lie within the captured length, and no header field is
  printed.
\<close>

theorem analyze_capture_short_header_counterexample:
  "take 10 (SYNC_PATTERN @ [0xC3, 0x07, 0x00, 0x80] @ replicate 118 0) =
     SYNC_PATTERN @ [0xC3, 0x07, 0x00, 0x80] \<and>
   fst (analyze_capture (SYNC_PATTERN @ [0xC3, 0x07, 0x00, 0x80] @ replicate 118 0) 10) =
     [CAPTURE 10 (SYNC_PATTERN @ [0xC3, 0x07, 0x00, 0x80]) False, SYNC_FOUND 0, PKT_START 6]"
proof -
  let ?B = "SYNC_PATTERN @ [0xC3, 0x07, 0x00, 0x80] @ replicate 118 (0::u8)"
  have t: "take 10 ?B = SYNC_PATTERN @ [0xC3, 0x07, 0x00, 0x80]"
    by (simp add: SYNC_PATTERN_def)
  have "marker_at (take (nat 10) ?B) 0"
    by (simp add: marker_at_def SYNC_PATTERN_def)
  then have "fst (find_sync_pattern ?B 10) = 0"
    by (intro find_sync_pattern_at_start) (simp_all add: SYNC_PATTERN_def)
  moreover have "?B ! 6 = 0xC3"
    by (simp add: SYNC_PATTERN_def)
  moreover have "fst (hex_dump ?B 10) = CAPTURE 10 (SYNC_PATTERN @ [0xC3, 0x07, 0x00, 0x80]) False"
    by (simp add: hex_dump_def SYNC_PATTERN_def upto.simps)
  ultimately have "fst (analyze_capture ?B 10) =
      [CAPTURE 10 (SYNC_PATTERN @ [0xC3, 0x07, 0x00, 0x80]) False, SYNC_FOUND 0, PKT_START 6]"
    by (simp add: analyze_capture_eq decode_packet_eq)
  with t show ?thesis
    by simp
qed

text \<open>
  Three captures: the ten bytes again (sync at 0, C3 at 6, the header left out); a
  marker followed by \<open>00\<close> and then a second marker followed by a whole packet
  (only the sync line is printed); and a broken start of the marker before a whole
  INIT packet of type \<open>0x85\<close>.
\<close>

theorem analyze_capture_header_all_or_nothing_witness:
  "marker_at (take (nat 10) (SYNC_PATTERN @ [0xC3, 0x07, 0x00, 0x80] @ replicate 118 0)) 0 \<and>
   fst (analyze_capture (SYNC_PATTERN @ [0xC3, 0x07, 0x00, 0x80] @ replicate 118 0) 10) =
     [fst (hex_dump (SYNC_PATTERN @ [0xC3, 0x07, 0x00, 0x80] @ replicate 118 0) 10),
      SYNC_FOUND 0, PKT_START 6] \<and>
   snd (decode_packet (SYNC_PATTERN @ [0xC3, 0x07, 0x00, 0x80] @ replicate 118 0) 10 0) = [6] \<and>
   marker_at (take (nat 22)
     (SYNC_PATTERN @ [0x00] @ SYNC_PATTERN @ [0xC3, 0x07, 0x00, 0x80, 0, 0, 0, 0, 0x01] @
      replicate 106 0)) 0 \<and>
   fst (analyze_capture
     (SYNC_PATTERN @ [0x00] @ SYNC_PATTERN @ [0xC3, 0x07, 0x00, 0x80, 0, 0, 0, 0, 0x01] @
      replicate 106 0) 22) =
     [fst (hex_dump
        (SYNC_PATTERN @ [0x00] @ SYNC_PATTERN @ [0xC3, 0x07, 0x00, 0x80, 0, 0, 0, 0, 0x01] @
         replicate 106 0) 22),
      SYNC_FOUND 0] \<and>
   marker_at (take (nat 17)
     ([0xFF, 0x3F] @ SYNC_PATTERN @ [0xC3, 0x07, 0x00, 0x85, 0, 0, 0, 0, 0x05] @ replicate 111 0)) 2 \<and>
   fst (analyze_capture
     ([0xFF, 0x3F] @ SYNC_PATTERN @ [0xC3, 0x07, 0x00, 0x85, 0, 0, 0, 0, 0x05] @ replicate 111 0) 17) =
     [fst (hex_dump
        ([0xFF, 0x3F] @ SYNC_PATTERN @ [0xC3, 0x07, 0x00, 0x85, 0, 0, 0, 0, 0x05] @ replicate 111 0) 17),
      SYNC_FOUND 2, PKT_START 8, PKT_HEADER 0x07 0x00 0x85, CMD 0x05 ''INIT'']"
proof -
  let ?A = "SYNC_PATTERN @ [0xC3, 0x07, 0x00, 0x80] @ replicate 118 (0::u8)"
  let ?B = "SYNC_PATTERN @ [0x00] @ SYNC_PATTERN @ [0xC3, 0x07, 0x00, 0x80, 0, 0, 0, 0, 0x01] @
      replicate 106 (0::u8)"
  let ?C = "[0xFF, 0x3F] @ SYNC_PATTERN @ [0xC3, 0x07, 0x00, 0x85, 0, 0, 0, 0, 0x05] @
      replicate 111 (0::u8)"
  have la: "(0::int) \<le> 10" "nat 10 \<le> length ?A"
    and lb: "(0::int) \<le> 22" "nat 22 \<le> length ?B"
    and lc: "(0::int) \<le> 17" "nat 17 \<le> length ?C"
    by (simp_all add: SYNC_PATTERN_def)
  have ma: "marker_at (take (nat 10) ?A) 0"
    and mb: "marker_at (take (nat 22) ?B) 0"
    and mc: "marker_at (take (nat 17) ?C) 2"
    by (simp_all add: marker_at_def SYNC_PATTERN_def)
  have first: "\<forall>j<0. \<not> marker_at cap j" for cap
    by simp
  have "\<not> marker_at (take (nat 17) ?C) 0" "\<not> marker_at (take (nat 17) ?C) 1"
    by (simp_all add: marker_at_def SYNC_PATTERN_def)
  then have nc: "\<forall>j<2. \<not> marker_at (take (nat 17) ?C) j"
    by (auto simp: less_Suc_eq numeral_2_eq_2)
  have bytes: "?A ! (0 + 6) = 0xC3" "?B ! (0 + 6) = 0x00"
    "?C ! (2 + 6) = 0xC3" "?C ! (2 + 7) = 0x07" "?C ! (2 + 8) = 0x00" "?C ! (2 + 9) = 0x85"
    "?C ! (2 + 14) = 0x05"
    by (simp_all add: SYNC_PATTERN_def)
  have name: "get_command_name 0x05 = ''INIT''"
    by (simp add: get_command_name_def)
  from analyze_capture_header_all_or_nothing [OF la ma first]
    analyze_capture_header_all_or_nothing [OF lb mb first]
    analyze_capture_header_all_or_nothing [OF lc mc nc]
  show ?thesis
    using ma mb mc by (simp only: bytes name) simp
qed

text \<open>Eight captured bytes \<open>0xFF\<close>, and eight captured bytes \<open>0x00\<close>.\<close>

theorem analyze_capture_no_sync_witness:
  "fst (find_sync_pattern (replicate 128 0xFF) 8) < 0 \<and>
   fst (analyze_capture (replicate 128 0xFF) 8) =
     [fst (hex_dump (replicate 128 0xFF) 8), WARN_ALL_ONES] \<and>
   fst (find_sync_pattern (replicate 128 0x00) 8) < 0 \<and>
   fst (analyze_capture (replicate 128 0x00) 8) =
     [fst (hex_dump (replicate 128 0x00) 8), WARN_ALL_ZEROS]"
proof -
  have none: "\<not> marker_at (take (nat 8) (replicate 128 c)) k" for c :: u8 and k
  proof
    assume "marker_at (take (nat 8) (replicate 128 c)) k"
    then have "set SYNC_PATTERN \<subseteq> set (replicate 128 c)"
      unfolding marker_at_def by (metis set_take_subset set_drop_subset subset_trans)
    then show False
      by (auto simp: SYNC_PATTERN_def)
  qed
  have h: "fst (find_sync_pattern (replicate 128 c) 8) < 0" for c :: u8
    using find_sync_pattern_spec [of 8 "replicate 128 c"] none [of c] by auto
  have z: "(\<forall>i. 0 \<le> i \<and> i < (8::int) \<longrightarrow> replicate 128 (0xFF::u8) ! nat i = 0x00) = False"
    by (auto intro!: exI [of _ 0])
  have w: "(\<forall>i. 0 \<le> i \<and> i < (8::int) \<longrightarrow> replicate 128 (0xFF::u8) ! nat i = 0xFF) = True"
    by auto
  have z0: "(\<forall>i. 0 \<le> i \<and> i < (8::int) \<longrightarrow> replicate 128 (0x00::u8) ! nat i = 0x00) = True"
    by auto
  from analyze_capture_no_sync [OF h [of "0xFF"]] analyze_capture_no_sync [OF h [of "0x00"]]
  show ?thesis
    using h [of "0xFF"] h [of "0x00"] by (simp only: z w z0 if_True if_False simp_thms)
qed

subsection \<open>The byte assembler\<close>

lemma call_simps [simp]:
  "tick (call c s) = tick s + 1"
  "calls (call c s) = c # calls s"
  "capture_len (call c s) = capture_len s"
  "capture_buffer (call c s) = capture_buffer s"
  "writes (call c s) = writes s"
  "console (call c s) = console s"
  by (simp_all add: call_def)

lemma concat_replicate_Suc_right:
  "concat (replicate (Suc n) xs) = concat (replicate n xs) @ xs"
  by (induction n) simp_all

lemma read_byte_loop_eq:
  "read_byte_loop h n byte s =
     (foldl (shift_in h (tick s)) byte [0..<n],
      s\<lparr>tick := tick s + 3 * n, calls := concat (replicate n bit_cell) @ calls s\<rparr>)"
proof (induction n arbitrary: byte s)
  case 0
  show ?case by simp
next
  case (Suc n)
  let ?s3 = "esp_rom_delay_us HALF_BIT_US
      (snd (read_wrdata h (esp_rom_delay_us HALF_BIT_US s)))"
  have t: "tick ?s3 = tick s + 3"
    by (simp add: esp_rom_delay_us_def read_wrdata_def gpio_get_level_def)
  have sh: "shift_in h (tick s + 3) = (\<lambda>b i. shift_in h (tick s) b (Suc i))"
    by (intro ext) (simp add: shift_in_def wrdata_sample_def add.commute add.left_commute)
  have fold: "foldl (shift_in h (tick s + 3)) b [0..<n] =
      foldl (shift_in h (tick s)) b (map Suc [0..<n])" for b
    by (simp add: foldl_map sh)
  have first: "fst (read_wrdata h (esp_rom_delay_us HALF_BIT_US s)) = wrdata_sample h (tick s) 0"
    by (simp add: esp_rom_delay_us_def read_wrdata_def gpio_get_level_def wrdata_sample_def)
  have upt: "[0..<Suc n] = 0 # map Suc [0..<n]"
    by (metis map_Suc_upt upt_conv_Cons zero_less_Suc)
  have st: "?s3\<lparr>tick := tick ?s3 + 3 * n, calls := concat (replicate n bit_cell) @ calls ?s3\<rparr> =
      s\<lparr>tick := tick s + 3 * Suc n, calls := concat (replicate (Suc n) bit_cell) @ calls s\<rparr>"
    by (simp add: esp_rom_delay_us_def read_wrdata_def gpio_get_level_def call_def bit_cell_def
        HALF_BIT_US_def concat_replicate_Suc_right del: replicate_Suc)
  have "read_byte_loop h (Suc n) byte s = read_byte_loop h n (shift_in h (tick s) byte 0) ?s3"
    by (simp add: split_beta first shift_in_def)
  also have "\<dots> = (foldl (shift_in h (tick ?s3)) (shift_in h (tick s) byte 0) [0..<n],
      ?s3\<lparr>tick := tick ?s3 + 3 * n, calls := concat (replicate n bit_cell) @ calls ?s3\<rparr>)"
    by (rule Suc.IH)
  also have "\<dots> = (foldl (shift_in h (tick s)) byte [0..<Suc n],
      s\<lparr>tick := tick s + 3 * Suc n, calls := concat (replicate (Suc n) bit_cell) @ calls s\<rparr>)"
    unfolding st unfolding t fold upt by simp
  finally show ?case .
qed


lemma upt_8: "[0..<8] = [0, 1, 2, 3, 4, 5, 6, 7]"
  by code_simp

lemma shift_bits:
  "foldl (\<lambda>(byte :: u8) b. push_bit 1 byte OR (if b then 1 else 0)) 0
     [b0, b1, b2, b3, b4, b5, b6, b7] =
   (if b0 then 128 else 0) + (if b1 then 64 else 0) + (if b2 then 32 else 0) +
   (if b3 then 16 else 0) + (if b4 then 8 else 0) + (if b5 then 4 else 0) +
   (if b6 then 2 else 0) + (if b7 then 1 else 0)"
  by (cases b0; cases b1; cases b2; cases b3; cases b4; cases b5; cases b6; cases b7) simp_all

lemma foldl_shift_in:
  "foldl (shift_in h t) byte idx =
     foldl (\<lambda>byte b. push_bit 1 byte OR (if b then 1 else 0)) byte (map (wrdata_sample h t) idx)"
  by (induction idx arbitrary: byte) (simp_all add: shift_in_def)

lemma read_byte_raw_eq:
  "read_byte_raw h s =
     (sum_list (map (\<lambda>i. if wrdata_sample h (tick s) i then 2 ^ (7 - i) else 0) [0..<8]),
      s\<lparr>tick := tick s + 24, calls := concat (replicate 8 bit_cell) @ calls s\<rparr>)"
  unfolding read_byte_raw_def read_byte_loop_eq foldl_shift_in upt_8 list.map shift_bits
  by simp

text \<open>
  C7: \<open>read_byte_raw\<close> makes 24 service calls, eight times a delay of 2, one read of
  the write-data line and a delay of 2: the line is read exactly eight times. The
  sample of bit cell \<open>i\<close> has weight \<open>2 ^ (7 - i)\<close> in the byte returned: the first
  sample is the most significant bit. When all eight samples are high the byte is
  \<open>0xFF\<close>; when all are low it is \<open>0x00\<close>; when they are 1, 0, 1, 1, 0, 0, 1, 0 it is
  \<open>0xB2\<close>.
\<close>

theorem read_byte_raw_msb_first:
  "calls (snd (read_byte_raw h s)) = concat (replicate 8 bit_cell) @ calls s \<and>
   tick (snd (read_byte_raw h s)) = tick s + 24 \<and>
   fst (read_byte_raw h s) =
     sum_list (map (\<lambda>i. if wrdata_sample h (tick s) i then 2 ^ (7 - i) else 0) [0..<8]) \<and>
   ((\<forall>i<8. wrdata_sample h (tick s) i) \<longrightarrow> fst (read_byte_raw h s) = 0xFF) \<and>
   ((\<forall>i<8. \<not> wrdata_sample h (tick s) i) \<longrightarrow> fst (read_byte_raw h s) = 0x00) \<and>
   (map (wrdata_sample h (tick s)) [0..<8] = [True, False, True, True, False, False, True, False]
      \<longrightarrow> fst (read_byte_raw h s) = 0xB2)"
proof -
  have c: "calls (snd (read_byte_raw h s)) = concat (replicate 8 bit_cell) @ calls s"
    by (simp add: read_byte_raw_eq)
  have t: "tick (snd (read_byte_raw h s)) = tick s + 24"
    by (simp add: read_byte_raw_eq)
  have v: "fst (read_byte_raw h s) =
      sum_list (map (\<lambda>i. if wrdata_sample h (tick s) i then 2 ^ (7 - i) else 0) [0..<8])"
    by (simp add: read_byte_raw_eq)
  have ones: "fst (read_byte_raw h s) = 0xFF" if "\<forall>i<8. wrdata_sample h (tick s) i"
    using that unfolding v upt_8 by simp
  have zeros: "fst (read_byte_raw h s) = 0x00" if "\<forall>i<8. \<not> wrdata_sample h (tick s) i"
    using that unfolding v upt_8 by simp
  have pat: "fst (read_byte_raw h s) = 0xB2"
    if "map (wrdata_sample h (tick s)) [0..<8] = [True, False, True, True, False, False, True, False]"
    using that unfolding v upt_8 by simp
  from c t v ones zeros pat show ?thesis
    by blast
qed

text \<open>Three lines: held at 1, held at 0, and driven to 1, 0, 1, 1, 0, 0, 1, 0.\<close>

theorem read_byte_raw_msb_first_witness:
  "fst (read_byte_raw (wrdata_line [1, 1, 1, 1, 1, 1, 1, 1]) boot_state) = 0xFF \<and>
   fst (read_byte_raw (wrdata_line [0, 0, 0, 0, 0, 0, 0, 0]) boot_state) = 0x00 \<and>
   fst (read_byte_raw (wrdata_line [1, 0, 1, 1, 0, 0, 1, 0]) boot_state) = 0xB2 \<and>
   map (wrdata_sample (wrdata_line [1, 0, 1, 1, 0, 0, 1, 0]) (tick boot_state)) [0..<8] =
     [True, False, True, True, False, False, True, False]"
proof -
  have div3: "(3 * i + 1) div 3 = i" for i :: nat
    by simp
  have ones: "\<forall>i<8. wrdata_sample (wrdata_line [1, 1, 1, 1, 1, 1, 1, 1]) (tick boot_state) i"
  proof (intro allI impI)
    fix i :: nat assume i: "i < 8"
    then have "[1, 1, 1, 1, 1, 1, 1, 1 :: int] ! i \<in> set [1, 1, 1, 1, 1, 1, 1, 1]"
      by (intro nth_mem) simp
    then have "[1, 1, 1, 1, 1, 1, 1, 1 :: int] ! i = 1"
      by simp
    with i show "wrdata_sample (wrdata_line [1, 1, 1, 1, 1, 1, 1, 1]) (tick boot_state) i"
      by (simp add: wrdata_sample_def wrdata_line_def boot_state_def div3 del: One_nat_def)
  qed
  have zeros: "\<forall>i<8. \<not> wrdata_sample (wrdata_line [0, 0, 0, 0, 0, 0, 0, 0]) (tick boot_state) i"
  proof (intro allI impI)
    fix i :: nat assume i: "i < 8"
    then have "[0, 0, 0, 0, 0, 0, 0, 0 :: int] ! i \<in> set [0, 0, 0, 0, 0, 0, 0, 0]"
      by (intro nth_mem) simp
    then have "[0, 0, 0, 0, 0, 0, 0, 0 :: int] ! i = 0"
      by simp
    with i show "\<not> wrdata_sample (wrdata_line [0, 0, 0, 0, 0, 0, 0, 0]) (tick boot_state) i"
      by (simp add: wrdata_sample_def wrdata_line_def boot_state_def div3 del: One_nat_def)
  qed
  have pat: "map (wrdata_sample (wrdata_line [1, 0, 1, 1, 0, 0, 1, 0]) (tick boot_state)) [0..<8] =
      [True, False, True, True, False, False, True, False]"
    unfolding upt_8 by (simp add: wrdata_sample_def wrdata_line_def boot_state_def)
  from read_byte_raw_msb_first [of "wrdata_line [1, 1, 1, 1, 1, 1, 1, 1]" boot_state]
    read_byte_raw_msb_first [of "wrdata_line [0, 0, 0, 0, 0, 0, 0, 0]" boot_state]
    read_byte_raw_msb_first [of "wrdata_line [1, 0, 1, 1, 0, 0, 1, 0]" boot_state]
    ones zeros pat
  show ?thesis
    by blast
qed

subsection \<open>The capture session\<close>

lemma kept_refl [simp]: "kept s s"
  by (simp add: kept_def)

lemma kept_trans: "kept s s' \<Longrightarrow> kept s' s'' \<Longrightarrow> kept s s''"
  by (simp add: kept_def)

lemma kept_call [simp]: "kept s (call c s)"
  by (simp add: kept_def)

lemma kept_printf [simp]: "kept s (printf l s)"
  by (simp add: kept_def printf_def)

lemma kept_gpio [simp]: "kept s (snd (gpio_get_level h p s))"
  by (simp add: gpio_get_level_def)

lemma kept_timer [simp]: "kept s (snd (esp_timer_get_time h s))"
  by (simp add: esp_timer_get_time_def)

lemma kept_read_wrdata [simp]: "kept s (snd (read_wrdata h s))"
  by (simp add: read_wrdata_def split_beta)

lemma kept_print_levels [simp]: "kept s (print_levels h s)"
  by (simp add: print_levels_def split_beta gpio_get_level_def printf_def kept_def)

lemma wait_loop_kept:
  assumes "wait_loop h start timeout_us s = Some y"
  shows "kept s (snd y)"
  using assms
proof (induction rule: wait_loop.raw_induct [rotated, consumes 1])
  case (1 wait_loop h start timeout_us s y)
  then show ?case
    by (fastforce simp: esp_timer_get_time_def gpio_get_level_def kept_def
        split: if_splits prod.splits)
qed

lemma activity_loop_kept:
  assumes "activity_loop h start_time timeout_us a s = Some y"
  shows "kept s (snd y)"
  using assms
proof (induction rule: activity_loop.raw_induct [rotated, consumes 1])
  case (1 activity_loop h start_time timeout_us a s y)
  let ?s1 = "snd (esp_timer_get_time h s)"
  let ?s2 = "snd (read_wrdata h ?s1)"
  have k: "kept s ?s1" "kept s ?s2"
    by (simp_all add: kept_def esp_timer_get_time_def read_wrdata_def gpio_get_level_def
        split_beta)
  show ?case
  proof (cases "fst (esp_timer_get_time h s) - start_time < timeout_us")
    case True
    with "1.hyps" obtain a' where "activity_loop h start_time timeout_us a' ?s2 = Some y"
      by (auto simp: split_beta)
    from "1.IH" [OF this] k(2) show ?thesis
      by (rule kept_trans [rotated])
  next
    case False
    with "1.hyps" have "y = (a, ?s1)"
      by (auto simp: split_beta)
    with k(1) show ?thesis
      by simp
  qed
qed

lemma wait_for_write_mode_kept:
  "wait_for_write_mode h timeout_us s = Some y \<Longrightarrow> kept s (snd y)"
  by (auto simp: wait_for_write_mode_def esp_timer_get_time_def split: prod.splits
      dest!: wait_loop_kept simp: kept_def)

lemma check_wrdata_activity_kept:
  "check_wrdata_activity h timeout_us s = Some y \<Longrightarrow> kept s (snd y)"
  by (auto simp: check_wrdata_activity_def esp_timer_get_time_def read_wrdata_def
      gpio_get_level_def printf_def split: prod.splits option.splits
      dest!: activity_loop_kept simp: kept_def)


lemma kept_read_byte_raw [simp]: "kept s (snd (read_byte_raw h s))"
  by (simp add: read_byte_raw_eq kept_def)

lemma drive_enabled_eq:
  "drive_enabled h s =
     (if level_at h (tick s) PIN_ENBL1 = 0 then (True, call (Gpio_get_level PIN_ENBL1) s)
      else (level_at h (tick s + 1) PIN_ENBL2 = 0,
            call (Gpio_get_level PIN_ENBL2) (call (Gpio_get_level PIN_ENBL1) s)))"
  by (simp add: drive_enabled_def gpio_get_level_def)

lemma kept_drive_enabled [simp]: "kept s (snd (drive_enabled h s))"
  by (simp add: drive_enabled_eq kept_def)

lemma console_drive_enabled [simp]: "console (snd (drive_enabled h s)) = console s"
  by (simp add: drive_enabled_eq)

lemma round_check_fields:
  "capture_len (snd (round_check h s)) = capture_len s + 1"
  "writes (snd (round_check h s)) = capture_len s # writes s"
  "length (capture_buffer (snd (round_check h s))) = length (capture_buffer s)"
  "console (snd (round_check h s)) = console s"
  by (simp_all add: round_check_def split_beta drive_enabled_eq store_byte_def
      read_byte_raw_eq esp_timer_get_time_def)

lemma capture_loop_unfold:
  "capture_loop h start_time s =
     (if capture_len s < CAPTURE_SIZE then
        (if fst (esp_timer_get_time h s) - start_time > CAPTURE_TIMEOUT_US
         then (CAPTURE_TIMEOUT, snd (esp_timer_get_time h s))
         else if \<not> fst (round_check h s) then (DRIVE_DISABLED, snd (round_check h s))
         else capture_loop h start_time (snd (round_check h s)))
      else (BUFFER_FULL, s))"
  by (subst capture_loop.simps) (simp add: round_check_def split_beta)

lemma upto_first: "i \<le> j \<Longrightarrow> [i..j] = i # [i + 1..j]"
  by (simp add: upto_rec1)

lemma capture_loop_inv:
  assumes "capture_len s \<le> CAPTURE_SIZE"
  shows "capture_len s \<le> capture_len (snd (capture_loop h start_time s)) \<and>
         capture_len (snd (capture_loop h start_time s)) \<le> CAPTURE_SIZE \<and>
         writes (snd (capture_loop h start_time s)) =
           rev [capture_len s..capture_len (snd (capture_loop h start_time s)) - 1] @ writes s \<and>
         length (capture_buffer (snd (capture_loop h start_time s))) = length (capture_buffer s) \<and>
         console (snd (capture_loop h start_time s)) = console s \<and>
         fst (capture_loop h start_time s) \<noteq> NO_WRITE_MODE \<and>
         (fst (capture_loop h start_time s) = DRIVE_DISABLED \<longrightarrow>
            capture_len s < capture_len (snd (capture_loop h start_time s))) \<and>
         (fst (capture_loop h start_time s) = BUFFER_FULL \<longrightarrow>
            capture_len (snd (capture_loop h start_time s)) = CAPTURE_SIZE)"
  using assms
proof (induction "nat (CAPTURE_SIZE - capture_len s)" arbitrary: s)
  case 0
  then have full: "\<not> capture_len s < CAPTURE_SIZE" "capture_len s = CAPTURE_SIZE"
    by simp_all
  then have "capture_loop h start_time s = (BUFFER_FULL, s)"
    by (subst capture_loop_unfold) simp
  with full show ?case
    by simp
next
  case (Suc n)
  then have lt: "capture_len s < CAPTURE_SIZE"
    by simp
  let ?t = "esp_timer_get_time h s"
  let ?r = "round_check h s"
  show ?case
  proof (cases "fst ?t - start_time > CAPTURE_TIMEOUT_US")
    case True
    with lt have "capture_loop h start_time s = (CAPTURE_TIMEOUT, snd ?t)"
      by (subst capture_loop_unfold) simp
    with lt show ?thesis
      by (simp add: esp_timer_get_time_def)
  next
    case False
    note no_timeout = this
    show ?thesis
    proof (cases "fst ?r")
      case False
      with lt no_timeout have "capture_loop h start_time s = (DRIVE_DISABLED, snd ?r)"
        by (subst capture_loop_unfold) simp
      with lt show ?thesis
        by (simp add: round_check_fields)
    next
      case True
      with lt no_timeout have eq: "capture_loop h start_time s = capture_loop h start_time (snd ?r)"
        by (subst capture_loop_unfold) simp
      have n: "n = nat (CAPTURE_SIZE - capture_len (snd ?r))"
        using Suc.hyps(2) by (simp add: round_check_fields)
      have le: "capture_len (snd ?r) \<le> CAPTURE_SIZE"
        using lt by (simp add: round_check_fields)
      from Suc.hyps(1) [OF n le] show ?thesis
        unfolding eq
        by (auto simp: round_check_fields upto_first [of "capture_len s"])
    qed
  qed
qed


lemma capture_packet_cases:
  assumes "capture_packet h s = Some (e, s')"
  shows "(e = NO_WRITE_MODE \<and> capture_len s' = 0 \<and> writes s' = writes s \<and>
            capture_buffer s' = capture_buffer s) \<or>
         (\<exists>start_time u. capture_len u = 0 \<and> writes u = writes s \<and>
            capture_buffer u = capture_buffer s \<and> (e, s') = capture_loop h start_time u)"
proof -
  let ?a = "printf DEBUG_WAITING ((snd (esp_timer_get_time h s))\<lparr>capture_len := 0\<rparr>)"
  have a: "capture_len ?a = 0" "writes ?a = writes s" "capture_buffer ?a = capture_buffer s"
    by (simp_all add: printf_def esp_timer_get_time_def)
  from assms obtain write_mode s1 where w: "wait_for_write_mode h 50000 ?a = Some (write_mode, s1)"
    by (auto simp: capture_packet_def split_beta split: option.splits)
  from wait_for_write_mode_kept [OF w] a
  have s1: "capture_len s1 = 0" "writes s1 = writes s" "capture_buffer s1 = capture_buffer s"
    by (simp_all add: kept_def)
  show ?thesis
  proof (cases write_mode)
    case False
    with assms w have "e = NO_WRITE_MODE" "s' = print_levels h (printf DEBUG_TIMEOUT s1)"
      by (simp_all add: capture_packet_def split_beta)
    moreover have "kept s1 (print_levels h (printf DEBUG_TIMEOUT s1))"
      by (rule kept_trans [OF kept_printf kept_print_levels])
    ultimately show ?thesis
      using s1 by (simp add: kept_def)
  next
    case True
    let ?b = "printf DEBUG_WRITE_MODE s1"
    from assms w True obtain n s2 where c: "check_wrdata_activity h 2000 ?b = Some (n, s2)"
      by (auto simp: capture_packet_def split_beta split: option.splits)
    let ?c = "if n = 0 then print_levels h (printf DEBUG_NO_TRANSITIONS s2) else s2"
    let ?u = "snd (esp_timer_get_time h ?c)"
    from check_wrdata_activity_kept [OF c] have "kept s1 s2"
      by (simp add: kept_def printf_def)
    moreover have "kept s2 ?c"
      by (simp add: kept_trans [OF kept_printf kept_print_levels])
    moreover have "kept ?c ?u"
      by simp
    ultimately have "kept s1 ?u"
      by (blast intro: kept_trans)
    with s1 have u: "capture_len ?u = 0" "writes ?u = writes s" "capture_buffer ?u = capture_buffer s"
      by (simp_all add: kept_def)
    from assms w True c have "(e, s') = capture_loop h (fst (esp_timer_get_time h ?c)) ?u"
      by (simp add: capture_packet_def split_beta)
    with u show ?thesis
      by blast
  qed
qed

text \<open>
  C8: every session that returns leaves \<open>0 \<le> capture_len \<le> 128\<close>, whatever the length
  was before (the session sets it to 0 first). The stores of the session went to the
  indices \<open>0, 1, ..., capture_len - 1\<close>, in this order, each store followed by
  \<^verbatim>\<open>capture_len++\<close>: the length after the store at index \<open>k\<close> is \<open>k + 1 \<le> 128\<close>. The
  array keeps its size. For the loop alone: started with a length of at most 128 it
  ends with a length of at most 128, and a round entered with a length below 128
  stores at that index and leaves a length of at most 128.
\<close>

theorem capture_packet_length_bounded:
  assumes "capture_packet h s = Some (e, s')"
  shows "0 \<le> capture_len s' \<and> capture_len s' \<le> CAPTURE_SIZE \<and>
         writes s' = rev [0..capture_len s' - 1] @ writes s \<and>
         length (capture_buffer s') = length (capture_buffer s) \<and>
         (e = NO_WRITE_MODE \<longrightarrow> capture_len s' = 0) \<and>
         (\<forall>start_time u. capture_len u \<le> CAPTURE_SIZE \<longrightarrow>
            capture_len (snd (capture_loop h start_time u)) \<le> CAPTURE_SIZE) \<and>
         (\<forall>u. capture_len u < CAPTURE_SIZE \<longrightarrow>
            capture_len (snd (round_check h u)) \<le> CAPTURE_SIZE \<and>
            writes (snd (round_check h u)) = capture_len u # writes u)"
proof -
  have loop: "\<forall>start_time u. capture_len u \<le> CAPTURE_SIZE \<longrightarrow>
      capture_len (snd (capture_loop h start_time u)) \<le> CAPTURE_SIZE"
    using capture_loop_inv by blast
  have round: "\<forall>u. capture_len u < CAPTURE_SIZE \<longrightarrow>
      capture_len (snd (round_check h u)) \<le> CAPTURE_SIZE \<and>
      writes (snd (round_check h u)) = capture_len u # writes u"
    by (simp add: round_check_fields)
  from capture_packet_cases [OF assms]
  have "0 \<le> capture_len s' \<and> capture_len s' \<le> CAPTURE_SIZE \<and>
      writes s' = rev [0..capture_len s' - 1] @ writes s \<and>
      length (capture_buffer s') = length (capture_buffer s) \<and>
      (e = NO_WRITE_MODE \<longrightarrow> capture_len s' = 0)"
  proof (elim disjE exE conjE)
    assume "e = NO_WRITE_MODE" "capture_len s' = 0" "writes s' = writes s"
      "capture_buffer s' = capture_buffer s"
    then show ?thesis
      by (simp add: CAPTURE_SIZE_def)
  next
    fix start_time u
    assume u: "capture_len u = 0" "writes u = writes s" "capture_buffer u = capture_buffer s"
      and r: "(e, s') = capture_loop h start_time u"
    have "capture_len u \<le> CAPTURE_SIZE"
      using u by (simp add: CAPTURE_SIZE_def)
    from capture_loop_inv [OF this, of h start_time] u r [symmetric] show ?thesis
      by simp
  qed
  with loop round show ?thesis
    by blast
qed


lemma round_check_eq:
  "fst (round_check h s) =
     (level_at h (tick s + 25) PIN_ENBL1 = 0 \<or> level_at h (tick s + 26) PIN_ENBL2 = 0)"
  "tick (snd (round_check h s)) =
     (if level_at h (tick s + 25) PIN_ENBL1 = 0 then tick s + 26 else tick s + 27)"
  by (auto simp: round_check_def split_beta drive_enabled_eq store_byte_def
      read_byte_raw_eq esp_timer_get_time_def add.commute)

lemma deselect_at_prefix:
  "capture_packet (deselect_at T) boot_state =
     Some (capture_loop (deselect_at T) 5000
       (boot_state\<lparr>tick := 12,
          calls := [Esp_timer_get_time, Gpio_get_level PIN_WREQ,
                    Gpio_get_level PIN_ENBL2, Gpio_get_level PIN_ENBL1,
                    Gpio_get_level PIN_WRDATA, Esp_timer_get_time,
                    Gpio_get_level PIN_WRDATA, Esp_timer_get_time,
                    Gpio_get_level PIN_WREQ, Esp_timer_get_time,
                    Esp_timer_get_time, Esp_timer_get_time],
          console := [DEBUG_LEVELS 1 (if 8 < T then 0 else 1) (if 9 < T then 0 else 1) 0,
                      DEBUG_NO_TRANSITIONS, DEBUG_ACTIVITY 1 1 0,
                      DEBUG_WRITE_MODE, DEBUG_WAITING]\<rparr>))"
  by (simp add: capture_packet_def wait_for_write_mode_def wait_loop.simps
      check_wrdata_activity_def activity_loop.simps read_wrdata_def gpio_get_level_def
      esp_timer_get_time_def call_def printf_def print_levels_def deselect_at_def boot_state_def
      del: One_nat_def)


lemma deselect_at_loop:
  assumes "tick s = 12 + 26 * k" "capture_len s = int k" "k \<le> m" "m \<le> 127"
  shows "fst (capture_loop (deselect_at (37 + 26 * m)) 5000 s) = DRIVE_DISABLED \<and>
         capture_len (snd (capture_loop (deselect_at (37 + 26 * m)) 5000 s)) = int m + 1"
  using assms
proof (induction "m - k" arbitrary: k s)
  case 0
  let ?h = "deselect_at (37 + 26 * m)"
  from 0 have k: "k = m"
    by simp
  have lt: "capture_len s < CAPTURE_SIZE"
    using 0 by (simp add: CAPTURE_SIZE_def)
  have t: "\<not> fst (esp_timer_get_time ?h s) - 5000 > CAPTURE_TIMEOUT_US"
    using "0.prems"(1) by (simp add: esp_timer_get_time_def deselect_at_def CAPTURE_TIMEOUT_US_def)
  have c: "\<not> fst (round_check ?h s)"
    using "0.prems"(1) k by (simp add: round_check_eq deselect_at_def)
  from lt t c have "capture_loop ?h 5000 s = (DRIVE_DISABLED, snd (round_check ?h s))"
    by (subst capture_loop_unfold) simp
  then show ?case
    using "0.prems"(2) k by (simp add: round_check_fields)
next
  case (Suc n)
  let ?h = "deselect_at (37 + 26 * m)"
  from Suc have k: "k < m"
    by simp
  have lt: "capture_len s < CAPTURE_SIZE"
    using Suc.prems k by (simp add: CAPTURE_SIZE_def)
  have t: "\<not> fst (esp_timer_get_time ?h s) - 5000 > CAPTURE_TIMEOUT_US"
    using Suc.prems(1) by (simp add: esp_timer_get_time_def deselect_at_def CAPTURE_TIMEOUT_US_def)
  have c: "fst (round_check ?h s)"
    using Suc.prems(1) k by (simp add: round_check_eq deselect_at_def)
  from lt t c have eq: "capture_loop ?h 5000 s = capture_loop ?h 5000 (snd (round_check ?h s))"
    by (subst capture_loop_unfold) simp
  have t': "tick (snd (round_check ?h s)) = 12 + 26 * Suc k"
    using Suc.prems(1) k by (simp add: round_check_eq deselect_at_def)
  have l': "capture_len (snd (round_check ?h s)) = int (Suc k)"
    using Suc.prems(2) by (simp add: round_check_fields)
  have n: "n = m - Suc k"
    using Suc.hyps(2) by simp
  from Suc.hyps(1) [OF n t' l' _ Suc.prems(4)] k show ?case
    unfolding eq by simp
qed

lemma deselect_at_session:
  assumes "m \<le> 127"
  shows "\<exists>s'. capture_packet (deselect_at (37 + 26 * m)) boot_state = Some (DRIVE_DISABLED, s') \<and>
           capture_len s' = int m + 1"
proof -
  let ?h = "deselect_at (37 + 26 * m)"
  obtain u where p: "capture_packet ?h boot_state = Some (capture_loop ?h 5000 u)"
    and u: "tick u = 12 + 26 * 0" "capture_len u = int 0"
    using deselect_at_prefix [of "37 + 26 * m"] by (simp add: boot_state_def)
  from deselect_at_loop [OF u _ assms]
  have "capture_loop ?h 5000 u = (DRIVE_DISABLED, snd (capture_loop ?h 5000 u))"
    and "capture_len (snd (capture_loop ?h 5000 u)) = int m + 1"
    by (simp_all add: prod_eq_iff)
  with p show ?thesis
    by metis
qed

text \<open>A session in which the drive is deselected during the second byte.\<close>

theorem capture_packet_length_bounded_witness:
  "map_option fst (capture_packet (deselect_at 63) boot_state) = Some DRIVE_DISABLED \<and>
   map_option (capture_len \<circ> snd) (capture_packet (deselect_at 63) boot_state) = Some 2 \<and>
   map_option (writes \<circ> snd) (capture_packet (deselect_at 63) boot_state) = Some [1, 0]"
proof -
  from deselect_at_session [of 1]
  obtain s' where r: "capture_packet (deselect_at 63) boot_state = Some (DRIVE_DISABLED, s')"
    and l: "capture_len s' = 2"
    by auto
  from capture_packet_length_bounded [OF r] l have "writes s' = [1, 0]"
    by (simp add: boot_state_def upto.simps)
  with r l show ?thesis
    by simp
qed

subsection \<open>Timeout of the write request, and deselection\<close>

lemma wait_loop_timeout:
  assumes "\<forall>k<n. time_at h (tick s + 2 * k) - start < T \<and>
             level_at h (tick s + 2 * k + 1) PIN_WREQ \<noteq> 0"
    and "\<not> time_at h (tick s + 2 * n) - start < T"
  shows "\<exists>s'. wait_loop h start T s = Some (False, s') \<and> kept s s' \<and> console s' = console s"
  using assms
proof (induction n arbitrary: s)
  case 0
  then have "wait_loop h start T s = Some (False, call Esp_timer_get_time s)"
    by (subst wait_loop.simps) (simp add: esp_timer_get_time_def)
  then show ?case
    by simp
next
  case (Suc n)
  let ?s2 = "call (Gpio_get_level PIN_WREQ) (call Esp_timer_get_time s)"
  from Suc.prems(1) [rule_format, of 0]
  have first: "time_at h (tick s) - start < T" "level_at h (tick s + 1) PIN_WREQ \<noteq> 0"
    by simp_all
  then have eq: "wait_loop h start T s = wait_loop h start T ?s2"
    by (subst wait_loop.simps) (simp add: esp_timer_get_time_def gpio_get_level_def)
  have "\<forall>k<n. time_at h (tick ?s2 + 2 * k) - start < T \<and>
      level_at h (tick ?s2 + 2 * k + 1) PIN_WREQ \<noteq> 0"
  proof (intro allI impI)
    fix k assume "k < n"
    with Suc.prems(1) [rule_format, of "Suc k"]
    show "time_at h (tick ?s2 + 2 * k) - start < T \<and>
        level_at h (tick ?s2 + 2 * k + 1) PIN_WREQ \<noteq> 0"
      by (simp add: add.commute add.left_commute)
  qed
  moreover have "\<not> time_at h (tick ?s2 + 2 * n) - start < T"
    using Suc.prems(2) by (simp add: add.commute add.left_commute)
  ultimately obtain s' where "wait_loop h start T ?s2 = Some (False, s')"
    "kept ?s2 s'" "console s' = console ?s2"
    using Suc.IH [of ?s2] by blast
  then show ?case
    unfolding eq by (auto simp: kept_def)
qed

text \<open>
  C9: \<^verbatim>\<open>wait_for_write_mode\<close> reads the timer once for its start and then, in each
  round, the timer and (while less than 50000 microseconds have passed) the
  write-request line. Suppose the first \<open>n\<close> rounds are within the 50 ms and find the
  line high, and the next timer reading is not within the 50 ms. Then the wait
  ends, and \<open>capture_packet\<close> returns through its early \<^verbatim>\<open>return\<close>: it has printed
  the timeout message and the levels, stored no byte, and left \<open>capture_len = 0\<close>.
  (The C function returns nothing; the outcome is the printed message and the
  empty capture, and \<open>NO_WRITE_MODE\<close> names this exit in the model.)
\<close>

theorem capture_packet_no_write_mode:
  assumes "\<forall>k<n. time_at h (tick s + 2 + 2 * k) - time_at h (tick s + 1) < 50000 \<and>
             level_at h (tick s + 3 + 2 * k) PIN_WREQ \<noteq> 0"
    and "\<not> time_at h (tick s + 2 + 2 * n) - time_at h (tick s + 1) < 50000"
  shows "\<exists>s'. capture_packet h s = Some (NO_WRITE_MODE, s') \<and>
           capture_len s' = 0 \<and> writes s' = writes s \<and>
           capture_buffer s' = capture_buffer s \<and>
           (\<exists>w e1 e2 q. console s' =
              DEBUG_LEVELS w e1 e2 q # DEBUG_TIMEOUT # DEBUG_WAITING # console s)"
proof -
  let ?a = "printf DEBUG_WAITING ((call Esp_timer_get_time s)\<lparr>capture_len := 0\<rparr>)"
  let ?b = "call Esp_timer_get_time ?a"
  have tb: "tick ?b = tick s + 2"
    by (simp add: printf_def)
  have "\<forall>k<n. time_at h (tick ?b + 2 * k) - time_at h (tick s + 1) < 50000 \<and>
      level_at h (tick ?b + 2 * k + 1) PIN_WREQ \<noteq> 0"
  proof (intro allI impI)
    fix k assume k: "k < n"
    have e: "tick s + 2 + 2 * k + 1 = tick s + 3 + 2 * k"
      by simp
    show "time_at h (tick ?b + 2 * k) - time_at h (tick s + 1) < 50000 \<and>
        level_at h (tick ?b + 2 * k + 1) PIN_WREQ \<noteq> 0"
      unfolding tb e by (rule assms(1) [rule_format, OF k])
  qed
  moreover have "\<not> time_at h (tick ?b + 2 * n) - time_at h (tick s + 1) < 50000"
    unfolding tb using assms(2) by simp
  ultimately obtain s1 where w: "wait_loop h (time_at h (tick s + 1)) 50000 ?b = Some (False, s1)"
    and k: "kept ?b s1" and c: "console s1 = console ?b"
    using wait_loop_timeout [of n h ?b "time_at h (tick s + 1)" 50000] by blast
  have "wait_for_write_mode h 50000 ?a = Some (False, s1)"
    using w by (simp add: wait_for_write_mode_def esp_timer_get_time_def printf_def)
  then have "capture_packet h s =
      Some (NO_WRITE_MODE, print_levels h (printf DEBUG_TIMEOUT s1))"
    by (simp add: capture_packet_def esp_timer_get_time_def)
  moreover have "capture_len (print_levels h (printf DEBUG_TIMEOUT s1)) = 0"
    "writes (print_levels h (printf DEBUG_TIMEOUT s1)) = writes s"
    "capture_buffer (print_levels h (printf DEBUG_TIMEOUT s1)) = capture_buffer s"
    using k by (simp_all add: kept_def print_levels_def split_beta gpio_get_level_def printf_def)
  moreover have "\<exists>w e1 e2 q. console (print_levels h (printf DEBUG_TIMEOUT s1)) =
      DEBUG_LEVELS w e1 e2 q # DEBUG_TIMEOUT # DEBUG_WAITING # console s"
    using c by (simp add: print_levels_def split_beta gpio_get_level_def printf_def)
  ultimately show ?thesis
    by blast
qed

text \<open>
  A bus where nothing happens and each service call takes 30 ms: the line is read
  once, high, and the second look at the timer ends the wait.
\<close>

theorem capture_packet_no_write_mode_witness:
  "time_at idle_bus (tick boot_state + 2) - time_at idle_bus (tick boot_state + 1) < 50000 \<and>
   level_at idle_bus (tick boot_state + 3) PIN_WREQ \<noteq> 0 \<and>
   \<not> time_at idle_bus (tick boot_state + 4) - time_at idle_bus (tick boot_state + 1) < 50000 \<and>
   map_option fst (capture_packet idle_bus boot_state) = Some NO_WRITE_MODE \<and>
   map_option (capture_len \<circ> snd) (capture_packet idle_bus boot_state) = Some 0 \<and>
   map_option (writes \<circ> snd) (capture_packet idle_bus boot_state) = Some []"
proof -
  have h1: "\<forall>k<1. time_at idle_bus (tick boot_state + 2 + 2 * k) -
        time_at idle_bus (tick boot_state + 1) < 50000 \<and>
      level_at idle_bus (tick boot_state + 3 + 2 * k) PIN_WREQ \<noteq> 0"
    by (simp add: idle_bus_def boot_state_def)
  have h2: "\<not> time_at idle_bus (tick boot_state + 2 + 2 * 1) -
      time_at idle_bus (tick boot_state + 1) < 50000"
    by (simp add: idle_bus_def boot_state_def)
  from capture_packet_no_write_mode [OF h1 h2]
  obtain s' where "capture_packet idle_bus boot_state = Some (NO_WRITE_MODE, s')"
    "capture_len s' = 0" "writes s' = writes boot_state"
    by blast
  then show ?thesis
    by (simp add: idle_bus_def boot_state_def)
qed





end
